theory Spec2Isabelle
  imports Main
begin

section \<open>Bytes and the library functions the header parser calls\<close>

text \<open>
  A Go \<^verbatim>\<open>[]byte\<close> is a list of 8-bit characters. The functions of this section are the
  ones of Go's packages \<^verbatim>\<open>bytes\<close>, \<^verbatim>\<open>strings\<close> and \<^verbatim>\<open>strconv\<close> that
  \<^verbatim>\<open>header/header.go\<close> calls.
\<close>

type_synonym bytes = "char list"

abbreviation LF :: char where "LF \<equiv> CHR 0x0A"
abbreviation CR :: char where "CR \<equiv> CHR 0x0D"

text \<open>\<^verbatim>\<open>bytes.HasPrefix(s, prefix)\<close>: \<^verbatim>\<open>len(s) >= len(prefix) && Equal(s[:len(prefix)], prefix)\<close>.\<close>

definition HasPrefix :: "bytes \<Rightarrow> bytes \<Rightarrow> bool" where
  "HasPrefix s p = (length p \<le> length s \<and> take (length p) s = p)"

text \<open>\<^verbatim>\<open>bytes.Contains(b, sub)\<close>: \<^verbatim>\<open>sub\<close> occurs at some offset of \<^verbatim>\<open>b\<close>.\<close>

fun Contains :: "bytes \<Rightarrow> bytes \<Rightarrow> bool" where
  "Contains [] sub = (sub = [])"
| "Contains (x # xs) sub = (HasPrefix (x # xs) sub \<or> Contains xs sub)"

text \<open>\<^verbatim>\<open>bytes.IndexByte(b, c)\<close>: the index of the first \<^verbatim>\<open>c\<close>; \<open>None\<close> is Go's \<^verbatim>\<open>-1\<close>.\<close>

fun IndexByte :: "bytes \<Rightarrow> char \<Rightarrow> nat option" where
  "IndexByte [] c = None"
| "IndexByte (x # xs) c = (if x = c then Some 0 else map_option Suc (IndexByte xs c))"

text \<open>
  \<^verbatim>\<open>strings.TrimSpace\<close> removes leading and trailing white space as Unicode defines it
  (\<^verbatim>\<open>unicode.IsSpace\<close>), reading the string as UTF-8. \<open>spaceWidth s\<close> is the width in
  bytes of the white-space rune that \<open>s\<close> starts with, 0 when it starts with none: the
  ASCII ones (tab, LF, VT, FF, CR, space) and the encodings of U+0085, U+00A0, U+1680,
  U+2000..U+200A, U+2028, U+2029, U+202F, U+205F and U+3000. A byte that starts no valid
  encoding decodes to U+FFFD, which is not white space.
\<close>

definition asciiSpace :: "char \<Rightarrow> bool" where
  "asciiSpace c = (c = CHR 0x09 \<or> c = LF \<or> c = CHR 0x0B \<or> c = CHR 0x0C \<or> c = CR \<or> c = CHR 0x20)"

fun spaceWidth :: "bytes \<Rightarrow> nat" where
  "spaceWidth [] = 0"
| "spaceWidth [c] = (if asciiSpace c then 1 else 0)"
| "spaceWidth [c, d] =
     (if asciiSpace c then 1
      else if c = CHR 0xC2 \<and> (d = CHR 0x85 \<or> d = CHR 0xA0) then 2 else 0)"
| "spaceWidth (c # d # e # _) =
     (if asciiSpace c then 1
      else if c = CHR 0xC2 \<and> (d = CHR 0x85 \<or> d = CHR 0xA0) then 2
      else if c = CHR 0xE1 \<and> d = CHR 0x9A \<and> e = CHR 0x80 then 3
      else if c = CHR 0xE2 \<and> d = CHR 0x80 \<and>
              ((0x80 \<le> (of_char e :: int) \<and> (of_char e :: int) \<le> 0x8A) \<or>
               e = CHR 0xA8 \<or> e = CHR 0xA9 \<or> e = CHR 0xAF) then 3
      else if c = CHR 0xE2 \<and> d = CHR 0x81 \<and> e = CHR 0x9F then 3
      else if c = CHR 0xE3 \<and> d = CHR 0x80 \<and> e = CHR 0x80 then 3
      else 0)"

lemma spaceWidth_le: "spaceWidth s \<le> length s"
  by (induction s rule: spaceWidth.induct) auto

function TrimLeft :: "bytes \<Rightarrow> bytes" where
  "TrimLeft s = (if spaceWidth s = 0 then s else TrimLeft (drop (spaceWidth s) s))"
  by pat_completeness auto
termination
proof (relation "measure length")
  show "wf (measure length)" by simp
next
  fix s :: bytes
  assume "spaceWidth s \<noteq> 0"
  moreover have "spaceWidth s \<le> length s" by (rule spaceWidth_le)
  ultimately show "(drop (spaceWidth s) s, s) \<in> measure length" by simp
qed

text \<open>
  From the right, Go decodes the last rune of the string; the trailing white-space runes
  are the leading ones of the reversed string, with each encoding read backwards.
\<close>

fun spaceWidthRev :: "bytes \<Rightarrow> nat" where
  "spaceWidthRev [] = 0"
| "spaceWidthRev [c] = spaceWidth [c]"
| "spaceWidthRev [d, c] = (if asciiSpace d then 1 else spaceWidth [c, d])"
| "spaceWidthRev (e # d # c # _) =
     (if asciiSpace e then 1
      else if spaceWidth [d, e] = 2 then 2
      else if spaceWidth [c, d, e] = 3 then 3 else 0)"

lemma spaceWidthRev_le: "spaceWidthRev s \<le> length s"
  by (induction s rule: spaceWidthRev.induct) auto

function TrimLeftRev :: "bytes \<Rightarrow> bytes" where
  "TrimLeftRev s = (if spaceWidthRev s = 0 then s else TrimLeftRev (drop (spaceWidthRev s) s))"
  by pat_completeness auto
termination
proof (relation "measure length")
  show "wf (measure length)" by simp
next
  fix s :: bytes
  assume "spaceWidthRev s \<noteq> 0"
  moreover have "spaceWidthRev s \<le> length s" by (rule spaceWidthRev_le)
  ultimately show "(drop (spaceWidthRev s) s, s) \<in> measure length" by simp
qed

definition TrimSpace :: "bytes \<Rightarrow> bytes" where
  "TrimSpace s = rev (TrimLeftRev (rev (TrimLeft s)))"

text \<open>
  \<^verbatim>\<open>strconv.ParseInt(s, 10, 64)\<close>. \<^verbatim>\<open>ParseUint\<close> rejects the empty string with a syntax
  error, then scans the bytes from left to right: a byte that is not a decimal digit is a
  syntax error with value 0; a digit met when the value read so far has reached the cutoff
  \<^verbatim>\<open>maxUint64/10 + 1\<close>, or whose addition would pass \<^verbatim>\<open>maxUint64\<close>, is a range error with
  the largest value, returned at once, whatever bytes follow. \<^verbatim>\<open>ParseInt\<close> takes one
  optional sign, and on a range error returns the nearest bound of \<^verbatim>\<open>int64\<close>. The machine
  integers are mathematical ones here, with the range checks of the library written out.
\<close>

datatype num_error = ErrSyntax | ErrRange

definition isDigit :: "char \<Rightarrow> bool" where
  "isDigit c = (0x30 \<le> (of_char c :: int) \<and> (of_char c :: int) \<le> 0x39)"

definition maxUint64 :: int where
  "maxUint64 = 2 ^ 64 - 1"

definition cutoff :: int where
  "cutoff = maxUint64 div 10 + 1"

fun ParseUintLoop :: "int \<Rightarrow> bytes \<Rightarrow> int \<times> num_error option" where
  "ParseUintLoop n [] = (n, None)"
| "ParseUintLoop n (d # s) =
     (if \<not> isDigit d then (0, Some ErrSyntax)
      else if n \<ge> cutoff then (maxUint64, Some ErrRange)
      else
        let n1 = n * 10 + ((of_char d :: int) - 0x30)
        in if n1 > maxUint64 then (maxUint64, Some ErrRange)
           else ParseUintLoop n1 s)"

definition ParseUint :: "bytes \<Rightarrow> int \<times> num_error option" where
  "ParseUint s = (if s = [] then (0, Some ErrSyntax) else ParseUintLoop 0 s)"

definition ParseInt :: "bytes \<Rightarrow> int \<times> num_error option" where
  "ParseInt s0 =
     (if s0 = [] then (0, Some ErrSyntax)
      else
        let neg = (hd s0 = CHR ''-'');
            s = (if hd s0 = CHR ''+'' \<or> hd s0 = CHR ''-'' then tl s0 else s0)
        in case ParseUint s of
             (un, Some ErrSyntax) \<Rightarrow> (0, Some ErrSyntax)
           | (un, _) \<Rightarrow>
               if \<not> neg \<and> un \<ge> 2 ^ 63 then (2 ^ 63 - 1, Some ErrRange)
               else if neg \<and> un > 2 ^ 63 then (- (2 ^ 63), Some ErrRange)
               else (if neg then - un else un, None))"

section \<open>The header parser of \<^verbatim>\<open>header/header.go\<close>\<close>

text \<open>The errors the parser returns. \<open>errWrapper\<close> is the closure of \<^verbatim>\<open>tryRead\<close>:
  \<^verbatim>\<open>fmt.Errorf("error when reading http headers: %s", err)\<close>, a new error value that
  carries the text of the one it wraps (\<open>None\<close> is a nil error).\<close>

datatype error =
    errNeedMore
  | EOF
  | ErrShortBuffer
  | ErrBufferFull
  | ErrNoProgress
  | ReadError string
  | errWrapper "error option"

text \<open>
  Modelled from the spec: the package \<^verbatim>\<open>bytebufferpool\<close> is not among the sources. Its
  fixed ByteBuffer has a capacity set at construction; a write past the capacity fails
  with the short-buffer error and the buffer never reallocates; \<open>Reset\<close> empties it.
\<close>

record ByteBuffer =
  B :: bytes
  capacity :: nat

definition Reset :: "ByteBuffer \<Rightarrow> ByteBuffer" where
  "Reset bb = bb\<lparr>B := []\<rparr>"

definition Write :: "ByteBuffer \<Rightarrow> bytes \<Rightarrow> ByteBuffer \<times> error option" where
  "Write bb p =
     (if length (B bb) + length p > capacity bb then (bb, Some ErrShortBuffer)
      else (bb\<lparr>B := B bb @ p\<rparr>, None))"

text \<open>
  Modelled from the spec: \<^verbatim>\<open>changeToLowerCase\<close> is called by \<^verbatim>\<open>readHeaders\<close> and
  defined in no source file; the spec says it lowercases the line in place.
\<close>

definition toLower :: "char \<Rightarrow> char" where
  "toLower c =
     (if 0x41 \<le> (of_char c :: int) \<and> (of_char c :: int) \<le> 0x5A
      then char_of ((of_char c :: int) + 0x20) else c)"

definition changeToLowerCase :: "bytes \<Rightarrow> bytes" where
  "changeToLowerCase line = map toLower line"

record Header =
  isConnectionClose :: bool
  contentLength :: int

definition ResetHeader :: "Header \<Rightarrow> Header" where
  "ResetHeader header = header\<lparr>isConnectionClose := False, contentLength := 0\<rparr>"

definition IsConnectionClose :: "Header \<Rightarrow> bool" where
  "IsConnectionClose header = isConnectionClose header"

definition ContentLength :: "Header \<Rightarrow> int" where
  "ContentLength header = (if contentLength header > 0 then contentLength header else 0)"

definition IsBodyChunked :: "Header \<Rightarrow> bool" where
  "IsBodyChunked header = (contentLength header = - 1)"

definition IsBodyIdentity :: "Header \<Rightarrow> bool" where
  "IsBodyIdentity header = (contentLength header = - 2)"

definition proxyHeaders :: "bytes list" where
  "proxyHeaders = [''Accept-Encoding'', ''Proxy-Connection'', ''Proxy-Authenticate'',
     ''Proxy-Authorization'']"

definition isProxyHeader :: "bytes \<Rightarrow> bool" where
  "isProxyHeader header = list_ex (\<lambda>proxyHeaderKey. HasPrefix header proxyHeaderKey) proxyHeaders"

definition isConnectionHeader :: "bytes \<Rightarrow> bool" where
  "isConnectionHeader header = HasPrefix header ''Connection''"

definition isContentLengthHeader :: "bytes \<Rightarrow> bool" where
  "isContentLengthHeader header = HasPrefix header ''Content-Length''"

definition isTransferEncodingHeader :: "bytes \<Rightarrow> bool" where
  "isTransferEncodingHeader header = HasPrefix header ''Transfer-Encoding''"

text \<open>
  The closure \<^verbatim>\<open>parseThenWriteBuffer\<close> of \<^verbatim>\<open>readHeaders\<close>. It reads and writes the
  header and the target buffer, and it lowercases a \<^verbatim>\<open>Connection\<close> line in place, in the
  slice it was given: the result carries the header, the buffer and the line as they are
  afterwards, and the error.
\<close>

definition parseThenWriteBuffer ::
  "Header \<Rightarrow> ByteBuffer \<Rightarrow> bytes \<Rightarrow> Header \<times> ByteBuffer \<times> bytes \<times> error option" where
  "parseThenWriteBuffer header buffer rawHeaderLine =
     (if isConnectionHeader rawHeaderLine then
        (let line = changeToLowerCase rawHeaderLine;
             header' = (if Contains line ''close''
                        then header\<lparr>isConnectionClose := True\<rparr> else header)
         in (header', buffer, line, None))
      else
        (let header' =
           (if isContentLengthHeader rawHeaderLine then
              (case IndexByte rawHeaderLine (CHR '':'') of
                 None \<Rightarrow> header
               | Some lengthBytesIndex \<Rightarrow>
                   if lengthBytesIndex > 0 then
                     (let lengthBytes = drop (lengthBytesIndex + 1) rawHeaderLine;
                          len = fst (ParseInt (TrimSpace lengthBytes))
                      in if len > 0 then header\<lparr>contentLength := len\<rparr> else header)
                   else header)
            else if isTransferEncodingHeader rawHeaderLine then
              (if Contains rawHeaderLine ''chunked'' then header\<lparr>contentLength := - 1\<rparr>
               else if Contains rawHeaderLine ''identity'' then header\<lparr>contentLength := - 2\<rparr>
               else header)
            else header)
         in if \<not> isProxyHeader rawHeaderLine then
              (case Write buffer rawHeaderLine of
                 (buffer', Some e) \<Rightarrow> (header', buffer', rawHeaderLine, Some e)
               | (buffer', None) \<Rightarrow> (header', buffer', rawHeaderLine, None))
            else (header', buffer, rawHeaderLine, None)))"

lemma IndexByte_Some_less: "IndexByte b c = Some i \<Longrightarrow> i < length b"
  by (induction b arbitrary: i) (auto split: if_splits)

text \<open>
  The loop of \<^verbatim>\<open>readHeaders\<close> over the rest of the lines. \<open>b\<close> is the slice \<^verbatim>\<open>b[m:]\<close>
  the iteration starts from and \<open>n\<close> the count so far; \<open>done\<close> is the part of the input
  before \<open>b\<close>, as the earlier iterations left it. The result is the header, the input
  bytes as the parse leaves them, the target buffer, and the error or the header length.
\<close>

function readRest ::
  "Header \<Rightarrow> ByteBuffer \<Rightarrow> bytes \<Rightarrow> bytes \<Rightarrow> nat \<Rightarrow> Header \<times> bytes \<times> ByteBuffer \<times> (error + nat)" where
  "readRest header buffer done b n =
     (case IndexByte b LF of
        None \<Rightarrow> (header, done @ b, Reset buffer, Inl errNeedMore)
      | Some i \<Rightarrow>
          (let m = i + 1 in
           case parseThenWriteBuffer header buffer (take m b) of
             (header', buffer', line, Some e) \<Rightarrow>
               (header', done @ line @ drop m b, Reset buffer', Inl e)
           | (header', buffer', line, None) \<Rightarrow>
               if (m = 2 \<and> line ! 0 = CR) \<or> m = 1
               then (header', done @ line @ drop m b, buffer', Inr (n + m))
               else readRest header' buffer' (done @ line) (drop m b) (n + m)))"
  by pat_completeness auto
termination
proof (relation "measure (\<lambda>(header, buffer, done, b, n). length b)")
  show "wf (measure (\<lambda>(header :: Header, buffer :: ByteBuffer, done :: bytes, b :: bytes, n :: nat). length b))"
    by simp
next
  fix header :: Header and buffer :: ByteBuffer and "done" b :: bytes and n i m :: nat
    and x header' y buffer' z line
  assume "IndexByte b LF = Some i" and "m = i + 1"
  then have "i < length b" by (simp add: IndexByte_Some_less)
  then show "((header', buffer', done @ line, drop m b, n + m), (header, buffer, done, b, n))
      \<in> measure (\<lambda>(header, buffer, done, b, n). length b)"
    using \<open>m = i + 1\<close> by simp
qed

declare readRest.simps [simp del]

definition readHeaders ::
  "Header \<Rightarrow> bytes \<Rightarrow> ByteBuffer \<Rightarrow> Header \<times> bytes \<times> ByteBuffer \<times> (error + nat)" where
  "readHeaders header buf buffer =
     (case IndexByte buf LF of
        None \<Rightarrow> (header, buf, buffer, Inl errNeedMore)
      | Some n \<Rightarrow>
          if (n = 1 \<and> buf ! 0 = CR) \<or> n = 0 then (header, buf, buffer, Inr (n + 1))
          else
            (let n = n + 1 in
             case parseThenWriteBuffer header (Reset buffer) (take n buf) of
               (header', buffer', line, Some e) \<Rightarrow>
                 (header', line @ drop n buf, Reset buffer', Inl e)
             | (header', buffer', line, None) \<Rightarrow>
                 readRest header' buffer' line (drop n buf) n))"

section \<open>The buffered reader and \<^verbatim>\<open>ParseHeaderFields\<close>\<close>

text \<open>
  Go's \<^verbatim>\<open>bufio.Reader\<close>, as far as \<^verbatim>\<open>tryRead\<close> uses it. \<open>bufd\<close> is the buffered, unread
  part \<^verbatim>\<open>b.buf[b.r:b.w]\<close>, \<open>bufSize\<close> is \<^verbatim>\<open>len(b.buf)\<close> and \<open>err\<close> is \<^verbatim>\<open>b.err\<close>. The
  underlying \<^verbatim>\<open>io.Reader\<close> is a script: \<open>rd\<close> lists the chunks that its next calls
  deliver (an empty chunk is a read of 0 bytes with no error), and once they are used up
  every call returns 0 bytes and the error \<open>rdErr\<close>.
\<close>

record Reader =
  bufd :: bytes
  bufSize :: nat
  err :: "error option"
  rd :: "bytes list"
  rdErr :: error

text \<open>\<^verbatim>\<open>b.rd.Read(p)\<close> with \<^verbatim>\<open>len(p) = k\<close>: the bytes, the error, and the script that is left.\<close>

definition Read :: "bytes list \<Rightarrow> error \<Rightarrow> nat \<Rightarrow> bytes \<times> error option \<times> bytes list" where
  "Read chunks e k =
     (case chunks of
        [] \<Rightarrow> ([], Some e, [])
      | c # cs \<Rightarrow> (take k c, None, if length c \<le> k then cs else drop k c # cs))"

text \<open>
  \<^verbatim>\<open>fill\<close> reads new data into the free space, trying \<^verbatim>\<open>maxConsecutiveEmptyReads = 100\<close>
  times; sliding the data to the front of the array does not change \<open>bufd\<close>. (With no
  free space the Go function panics; \<^verbatim>\<open>Peek\<close> and \<^verbatim>\<open>Discard\<close> call it with free space.)
\<close>

fun fillLoop :: "nat \<Rightarrow> Reader \<Rightarrow> Reader" where
  "fillLoop 0 b = b\<lparr>err := Some ErrNoProgress\<rparr>"
| "fillLoop (Suc i) b =
     (case Read (rd b) (rdErr b) (bufSize b - length (bufd b)) of
        (p, e, rest) \<Rightarrow>
          (let b' = b\<lparr>bufd := bufd b @ p, rd := rest\<rparr>
           in case e of
                Some e' \<Rightarrow> b'\<lparr>err := Some e'\<rparr>
              | None \<Rightarrow> if length p > 0 then b' else fillLoop i b'))"

definition fill :: "Reader \<Rightarrow> Reader" where
  "fill b = fillLoop 100 b"

definition Buffered :: "Reader \<Rightarrow> nat" where
  "Buffered b = length (bufd b)"

lemma fillLoop_progress:
  "err (fillLoop i b) \<noteq> None \<or> length (bufd b) < length (bufd (fillLoop i b))"
proof (induction i arbitrary: b)
  case 0
  then show ?case by simp
next
  case (Suc i)
  show ?case
  proof (cases "Read (rd b) (rdErr b) (bufSize b - length (bufd b))")
    case (fields p e rest)
    show ?thesis
    proof (cases e)
      case None
      show ?thesis
      proof (cases "length p > 0")
        case True
        with fields None show ?thesis by simp
      next
        case False
        with fields None Suc [of "b\<lparr>bufd := bufd b @ p, rd := rest\<rparr>"]
        show ?thesis by (simp add: Let_def)
      qed
    next
      case (Some e')
      with fields show ?thesis by simp
    qed
  qed
qed

lemma fillLoop_bounds:
  "bufSize (fillLoop i b) = bufSize b \<and> rdErr (fillLoop i b) = rdErr b \<and>
   length (bufd b) \<le> length (bufd (fillLoop i b)) \<and>
   (length (bufd b) \<le> bufSize b \<longrightarrow> length (bufd (fillLoop i b)) \<le> bufSize b)"
proof (induction i arbitrary: b)
  case 0
  then show ?case by simp
next
  case (Suc i)
  show ?case
  proof (cases "Read (rd b) (rdErr b) (bufSize b - length (bufd b))")
    case (fields p e rest)
    then have lp: "length p \<le> bufSize b - length (bufd b)"
      by (auto simp: Read_def split: list.splits)
    show ?thesis
    proof (cases e)
      case None
      show ?thesis
      proof (cases "length p > 0")
        case True
        with fields None lp show ?thesis by auto
      next
        case False
        with fields None lp Suc [of "b\<lparr>bufd := bufd b @ p, rd := rest\<rparr>"]
        show ?thesis by (auto simp: Let_def)
      qed
    next
      case (Some e')
      with fields lp show ?thesis by auto
    qed
  qed
qed

text \<open>The loop of \<^verbatim>\<open>Peek\<close>: fill while fewer than \<open>n\<close> bytes are buffered, the buffer is
  not full and no error is pending.\<close>

function fillUntil :: "nat \<Rightarrow> Reader \<Rightarrow> Reader" where
  "fillUntil n b =
     (if length (bufd b) < n \<and> length (bufd b) < bufSize b \<and> err b = None
      then fillUntil n (fill b) else b)"
  by pat_completeness auto
termination
proof (relation "measure (\<lambda>(n, b). (bufSize b - length (bufd b)) + (if err b = None then 1 else 0))")
  show "wf (measure (\<lambda>(n :: nat, b :: Reader). (bufSize b - length (bufd b)) + (if err b = None then 1 else 0)))"
    by simp
next
  fix n :: nat and b :: Reader
  assume a: "length (bufd b) < n \<and> length (bufd b) < bufSize b \<and> err b = None"
  have p: "err (fill b) \<noteq> None \<or> length (bufd b) < length (bufd (fill b))"
    unfolding fill_def by (rule fillLoop_progress)
  have q: "bufSize (fill b) = bufSize b" "length (bufd b) \<le> length (bufd (fill b))"
    "length (bufd (fill b)) \<le> bufSize b"
    using fillLoop_bounds [of 100 b] a by (simp_all add: fill_def)
  show "((n, fill b), (n, b)) \<in> measure (\<lambda>(n, b). (bufSize b - length (bufd b)) + (if err b = None then 1 else 0))"
    using a p q by auto
qed

declare fillUntil.simps [simp del]

text \<open>\<^verbatim>\<open>Peek(n)\<close>: the bytes, the error and the reader afterwards (\<^verbatim>\<open>readErr\<close> clears
  the pending error when it reports it).\<close>

definition Peek :: "Reader \<Rightarrow> nat \<Rightarrow> bytes \<times> error option \<times> Reader" where
  "Peek b0 n =
     (let b = fillUntil n b0 in
      if n > bufSize b then (bufd b, Some ErrBufferFull, b)
      else if length (bufd b) < n then
        (bufd b, Some (case err b of Some e \<Rightarrow> e | None \<Rightarrow> ErrBufferFull), b\<lparr>err := None\<rparr>)
      else (take n (bufd b), None, b))"

text \<open>\<^verbatim>\<open>Discard(n)\<close>: the reader, the number of bytes discarded and the error.\<close>

function DiscardLoop :: "Reader \<Rightarrow> nat \<Rightarrow> nat \<Rightarrow> Reader \<times> nat \<times> error option" where
  "DiscardLoop b n remain =
     (let b1 = (if Buffered b = 0 then fill b else b);
          skip = (if Buffered b1 > remain then remain else Buffered b1);
          b2 = b1\<lparr>bufd := drop skip (bufd b1)\<rparr>
      in if remain - skip = 0 then (b2, n, None)
         else if err b2 \<noteq> None then (b2\<lparr>err := None\<rparr>, n - (remain - skip), err b2)
         else DiscardLoop b2 n (remain - skip))"
  by pat_completeness auto
termination
proof (relation "measure (\<lambda>(b, n, remain). remain)")
  show "wf (measure (\<lambda>(b :: Reader, n :: nat, remain :: nat). remain))" by simp
next
  fix b :: Reader and n remain :: nat and b1 skip b2
  assume b1: "b1 = (if Buffered b = 0 then fill b else b)"
    and skip: "skip = (if remain < Buffered b1 then remain else Buffered b1)"
    and b2: "b2 = b1\<lparr>bufd := drop skip (bufd b1)\<rparr>"
    and r: "remain - skip \<noteq> 0" and e: "\<not> err b2 \<noteq> None"
  have "err b1 = None" using e b2 by simp
  then have "Buffered b1 > 0"
    using fillLoop_progress [of 100 b] b1
    by (auto simp: Buffered_def fill_def split: if_splits)
  then have "skip > 0" using skip r by (auto split: if_splits)
  then show "((b2, n, remain - skip), (b, n, remain)) \<in> measure (\<lambda>(b, n, remain). remain)"
    using r by simp
qed

declare DiscardLoop.simps [simp del]

definition Discard :: "Reader \<Rightarrow> nat \<Rightarrow> Reader \<times> nat \<times> error option" where
  "Discard b n = (if n = 0 then (b, 0, None) else DiscardLoop b n n)"

text \<open>How a call ends: with nil, with an error, or in a panic.\<close>

datatype result = Ok | Failed error | Panicked

text \<open>
  \<^verbatim>\<open>tryRead\<close>. The slice that the second \<^verbatim>\<open>Peek\<close> returns is the reader's own array, so
  what \<^verbatim>\<open>readHeaders\<close> lowercases in it is lowercased in the reader.
\<close>

definition tryRead ::
  "Header \<Rightarrow> Reader \<Rightarrow> ByteBuffer \<Rightarrow> nat \<Rightarrow> Header \<times> Reader \<times> ByteBuffer \<times> result" where
  "tryRead header reader buffer n =
     (case Peek reader n of
        (b, e, reader1) \<Rightarrow>
          if length b = 0 then
            (if n = 1 \<or> e = Some EOF
             then (header, reader1, buffer, Failed (errWrapper (Some EOF)))
             else (header, reader1, buffer, Failed (errWrapper e)))
          else
            (case Peek reader1 (Buffered reader1) of
               (b, e, reader2) \<Rightarrow>
                 if length b = 0 \<or> e \<noteq> None then (header, reader2, buffer, Panicked)
                 else
                   (case readHeaders header b buffer of
                      (header', b', buffer', Inl errParse) \<Rightarrow>
                        if errParse = errNeedMore
                        then (header', reader2\<lparr>bufd := b'\<rparr>, buffer', Failed errNeedMore)
                        else (header', reader2\<lparr>bufd := b'\<rparr>, buffer',
                              Failed (errWrapper (Some errParse)))
                    | (header', b', buffer', Inr headersLen) \<Rightarrow>
                        (case Discard (reader2\<lparr>bufd := b'\<rparr>) headersLen of
                           (reader3, discarded, Some e') \<Rightarrow> (header', reader3, buffer', Panicked)
                         | (reader3, discarded, None) \<Rightarrow> (header', reader3, buffer', Ok)))))"

text \<open>
  The loop of \<^verbatim>\<open>ParseHeaderFields\<close> may run forever; \<open>None\<close> is a call that does not
  return.
\<close>

partial_function (option) ParseHeaderFieldsLoop ::
  "Header \<Rightarrow> Reader \<Rightarrow> ByteBuffer \<Rightarrow> nat \<Rightarrow> (Header \<times> Reader \<times> ByteBuffer \<times> result) option" where
  "ParseHeaderFieldsLoop header reader buffer n =
     (case tryRead header reader buffer n of
        (header', reader', buffer', res) \<Rightarrow>
          if res = Failed errNeedMore
          then ParseHeaderFieldsLoop header' reader' buffer' (Buffered reader' + 1)
          else if res = Ok \<or> res = Panicked then Some (header', reader', buffer', res)
          else Some (header', reader', Reset buffer', res))"

declare ParseHeaderFieldsLoop.simps [code]

definition ParseHeaderFields ::
  "Header \<Rightarrow> Reader \<Rightarrow> ByteBuffer \<Rightarrow> (Header \<times> Reader \<times> ByteBuffer \<times> result) option" where
  "ParseHeaderFields header reader buffer = ParseHeaderFieldsLoop header reader buffer 1"

section \<open>Lines, and what one line does\<close>

text \<open>
  The lines of a byte string as the parser cuts them: each line runs to its LF and
  includes it; bytes after the last LF are a last, unterminated line.
\<close>

function lines_of :: "bytes \<Rightarrow> bytes list" where
  "lines_of b =
     (case IndexByte b LF of
        None \<Rightarrow> (if b = [] then [] else [b])
      | Some i \<Rightarrow> take (i + 1) b # lines_of (drop (i + 1) b))"
  by pat_completeness auto
termination
proof (relation "measure length")
  show "wf (measure length)" by simp
next
  fix b :: bytes and i :: nat
  assume "IndexByte b LF = Some i"
  then have "i < length b" by (rule IndexByte_Some_less)
  then show "(drop (i + 1) b, b) \<in> measure length" by simp
qed

declare lines_of.simps [simp del]

text \<open>
  The value \<^verbatim>\<open>parseThenWriteBuffer\<close> reads from a \<^verbatim>\<open>Content-Length\<close> line: the decimal after
  the first colon, white space trimmed; 0 when there is no colon or no number.
\<close>

definition contentLengthValue :: "bytes \<Rightarrow> int" where
  "contentLengthValue line =
     (case IndexByte line (CHR '':'') of
        None \<Rightarrow> 0
      | Some i \<Rightarrow> if i > 0 then fst (ParseInt (TrimSpace (drop (i + 1) line))) else 0)"

text \<open>
  What \<^verbatim>\<open>parseThenWriteBuffer\<close> does with one line, part by part: the header afterwards
  (\<open>lineEffect\<close>), whether the line is written to the target buffer (\<open>emitted\<close>), and
  the line as it stands in the input afterwards (\<open>lineAfter\<close>).
\<close>

definition lineEffect :: "Header \<Rightarrow> bytes \<Rightarrow> Header" where
  "lineEffect header line =
     (if isConnectionHeader line then
        (if Contains (changeToLowerCase line) ''close''
         then header\<lparr>isConnectionClose := True\<rparr> else header)
      else if isContentLengthHeader line then
        (if contentLengthValue line > 0
         then header\<lparr>contentLength := contentLengthValue line\<rparr> else header)
      else if isTransferEncodingHeader line then
        (if Contains line ''chunked'' then header\<lparr>contentLength := - 1\<rparr>
         else if Contains line ''identity'' then header\<lparr>contentLength := - 2\<rparr>
         else header)
      else header)"

definition emitted :: "bytes \<Rightarrow> bool" where
  "emitted line = (\<not> isConnectionHeader line \<and> \<not> isProxyHeader line)"

definition lineAfter :: "bytes \<Rightarrow> bytes" where
  "lineAfter line = (if isConnectionHeader line then changeToLowerCase line else line)"

lemma parseThenWriteBuffer_None:
  assumes "parseThenWriteBuffer header buffer line = (header', buffer', line', None)"
  shows "header' = lineEffect header line"
    and "line' = lineAfter line"
    and "B buffer' = B buffer @ (if emitted line then line else [])"
    and "capacity buffer' = capacity buffer"
  using assms
  by (auto simp: parseThenWriteBuffer_def lineEffect_def lineAfter_def emitted_def Let_def
      contentLengthValue_def Write_def split: if_splits option.splits prod.splits)

lemma parseThenWriteBuffer_Some:
  assumes "parseThenWriteBuffer header buffer line = (header', buffer', line', Some e)"
  shows "header' = lineEffect header line"
    and "line' = line" and "buffer' = buffer" and "e = ErrShortBuffer"
    and "emitted line" and "length (B buffer) + length line > capacity buffer"
  using assms
  by (auto simp: parseThenWriteBuffer_def lineEffect_def lineAfter_def emitted_def Let_def
      contentLengthValue_def Write_def split: if_splits option.splits prod.splits)


lemma parseThenWriteBuffer_eq:
  "parseThenWriteBuffer header buffer line =
     (lineEffect header line, (if emitted line then fst (Write buffer line) else buffer),
      lineAfter line, (if emitted line then snd (Write buffer line) else None))"
  by (auto simp: parseThenWriteBuffer_def lineEffect_def lineAfter_def emitted_def Let_def
      contentLengthValue_def Write_def split: if_splits option.splits prod.splits)

lemma IndexByte_take:
  "IndexByte b c = Some i \<Longrightarrow> i < j \<Longrightarrow> IndexByte (take j b) c = Some i"
proof (induction b arbitrary: i j)
  case Nil
  then show ?case by simp
next
  case (Cons x xs)
  then show ?case
    by (cases j) (auto split: if_splits)
qed

lemma IndexByte_Some_nth: "IndexByte b c = Some i \<Longrightarrow> b ! i = c"
  by (induction b arbitrary: i) (auto split: if_splits)

lemma IndexByte_Some_notin: "IndexByte b c = Some i \<Longrightarrow> c \<notin> set (take i b)"
  by (induction b arbitrary: i) (auto split: if_splits)

lemma IndexByte_None_iff: "IndexByte b c = None \<longleftrightarrow> c \<notin> set b"
  by (induction b) auto

lemma lines_of_Nil [simp]: "lines_of [] = []"
  by (simp add: lines_of.simps)

lemma lines_of_take_add:
  assumes "IndexByte b LF = Some i"
  shows "lines_of (take (i + 1 + k) b) = take (i + 1) b # lines_of (take k (drop (i + 1) b))"
proof -
  have "IndexByte (take (i + 1 + k) b) LF = Some i"
    using assms by (rule IndexByte_take) simp
  then have "lines_of (take (i + 1 + k) b) =
      take (i + 1) (take (i + 1 + k) b) # lines_of (drop (i + 1) (take (i + 1 + k) b))"
    by (subst lines_of.simps) simp
  moreover have "take (i + 1) (take (i + 1 + k) b) = take (i + 1) b"
    by (simp add: min_def)
  moreover have "drop (i + 1) (take (i + 1 + k) b) = take k (drop (i + 1) b)"
    by (simp add: drop_take)
  ultimately show ?thesis by simp
qed

text \<open>A line that ends with its only LF; the empty line that ends a header block.\<close>

definition terminated :: "bytes \<Rightarrow> bool" where
  "terminated line = (line \<noteq> [] \<and> IndexByte line LF = Some (length line - 1))"

lemma terminated_take:
  assumes "IndexByte b LF = Some i"
  shows "terminated (take (i + 1) b)"
proof -
  have "i < length b" using assms by (rule IndexByte_Some_less)
  moreover have "IndexByte (take (i + 1) b) LF = Some i"
    using assms by (rule IndexByte_take) simp
  ultimately show ?thesis by (auto simp: terminated_def min_def)
qed

definition emptyLine :: "bytes \<Rightarrow> bool" where
  "emptyLine line = (line = [LF] \<or> line = [CR, LF])"



lemma lineAfter_short: "length line \<le> 2 \<Longrightarrow> lineAfter line = line"
  by (auto simp: lineAfter_def isConnectionHeader_def HasPrefix_def)

lemma emptyLine_length: "emptyLine line \<Longrightarrow> length line \<le> 2"
  by (auto simp: emptyLine_def)

lemma emitted_lineAfter: "emitted line \<Longrightarrow> lineAfter line = line"
  by (simp add: emitted_def lineAfter_def)

lemma terminal_iff:
  assumes "IndexByte b LF = Some i"
  shows "((Suc i = 2 \<and> lineAfter (take (Suc i) b) ! 0 = CR) \<or> Suc i = 1)
     \<longleftrightarrow> emptyLine (take (Suc i) b)"
proof -
  have il: "i < length b" using assms by (rule IndexByte_Some_less)
  have nth: "b ! i = LF" using assms by (rule IndexByte_Some_nth)
  have notin: "LF \<notin> set (take i b)" using assms by (rule IndexByte_Some_notin)
  show ?thesis
  proof (cases "i = 0")
    case True
    then have "take (Suc i) b = [LF]"
      using il nth by (cases b) auto
    with True show ?thesis by (simp add: emptyLine_def)
  next
    case False
    note i0 = this
    show ?thesis
    proof (cases "i = 1")
      case True
      then obtain x y r where b: "b = x # y # r" using il
        by (cases b; cases "tl b") auto
      with True nth have y: "y = LF" by simp
      have "take (Suc i) b = [x, LF]" using b y True by simp
      then show ?thesis using True
        by (simp add: emptyLine_def lineAfter_short)
    next
      case False
      have "length (take (Suc i) b) = Suc i" using il by simp
      then have "\<not> emptyLine (take (Suc i) b)"
        using emptyLine_length [of "take (Suc i) b"] i0 False by linarith
      then show ?thesis using i0 False by simp
    qed
  qed
qed

lemma emptyLine_emitted: "emptyLine line \<Longrightarrow> emitted line"
proof -
  have "emitted [LF]" "emitted [CR, LF]"
    by (simp_all add: emitted_def isConnectionHeader_def isProxyHeader_def
        proxyHeaders_def HasPrefix_def)
  then show "emptyLine line \<Longrightarrow> emitted line"
    by (auto simp: emptyLine_def)
qed

lemma readRest_None:
  "IndexByte b LF = None \<Longrightarrow> readRest h bb dn b n0 = (h, dn @ b, Reset bb, Inl errNeedMore)"
  by (subst readRest.simps) simp

lemma readRest_Some:
  assumes "IndexByte b LF = Some i"
  shows "readRest h bb dn b n0 =
     (if emitted (take (Suc i) b) \<and> capacity bb < length (B bb) + Suc i
      then (lineEffect h (take (Suc i) b), dn @ b, Reset bb, Inl ErrShortBuffer)
      else if emptyLine (take (Suc i) b)
      then (lineEffect h (take (Suc i) b), dn @ b,
            (if emitted (take (Suc i) b) then bb\<lparr>B := B bb @ take (Suc i) b\<rparr> else bb), Inr (n0 + Suc i))
      else readRest (lineEffect h (take (Suc i) b))
            (if emitted (take (Suc i) b) then bb\<lparr>B := B bb @ take (Suc i) b\<rparr> else bb)
            (dn @ lineAfter (take (Suc i) b)) (drop (Suc i) b) (n0 + Suc i))"
proof -
  have il: "i < length b" using assms by (rule IndexByte_Some_less)
  then have len: "length (take (Suc i) b) = Suc i" by simp
  have t: "((Suc i = 2 \<and> lineAfter (take (Suc i) b) ! 0 = CR) \<or> Suc i = 1)
     \<longleftrightarrow> emptyLine (take (Suc i) b)"
    using assms by (rule terminal_iff)
  have e: "emitted (take (Suc i) b) \<Longrightarrow> lineAfter (take (Suc i) b) = take (Suc i) b"
    by (rule emitted_lineAfter)
  have ne: "\<not> emitted (take (Suc i) b) \<Longrightarrow> \<not> emptyLine (take (Suc i) b)"
    using emptyLine_emitted by blast
  show ?thesis
    apply (subst readRest.simps)
    apply (simp only: assms option.case Let_def parseThenWriteBuffer_eq Suc_eq_plus1 [symmetric])
    apply (cases "emitted (take (Suc i) b)")
    subgoal
      using len t e
      by (auto simp: Write_def append_take_drop_id simp del: take_Suc)
    subgoal
      using len t ne
      by (auto simp: Write_def append_take_drop_id simp del: take_Suc)
    done
qed


text \<open>
  The lines of a header block: terminated lines, the last one empty and no other.
\<close>

definition blockLines :: "bytes list \<Rightarrow> bool" where
  "blockLines ls = (ls \<noteq> [] \<and> list_all terminated ls \<and> emptyLine (last ls) \<and>
     list_all (\<lambda>l. \<not> emptyLine l) (butlast ls))"

lemma blockLines_single: "terminated l \<Longrightarrow> emptyLine l \<Longrightarrow> blockLines [l]"
  by (simp add: blockLines_def)

lemma blockLines_Cons: "terminated l \<Longrightarrow> \<not> emptyLine l \<Longrightarrow> blockLines ls \<Longrightarrow> blockLines (l # ls)"
  by (simp add: blockLines_def)

lemma readRest_Inr:
  assumes "readRest h bb dn b n0 = (h', buf', bb', Inr n)"
  shows "\<exists>k. n = n0 + k \<and> 0 < k \<and> k \<le> length b \<and>
           h' = foldl lineEffect h (lines_of (take k b)) \<and>
           B bb' = B bb @ concat (filter emitted (lines_of (take k b))) \<and>
           capacity bb' = capacity bb \<and>
           buf' = dn @ concat (map lineAfter (lines_of (take k b))) @ drop k b \<and>
           blockLines (lines_of (take k b))"
  using assms
proof (induction "length b" arbitrary: h bb dn b n0 rule: less_induct)
  case less
  from less.prems obtain i where i: "IndexByte b LF = Some i"
    by (cases "IndexByte b LF") (auto simp: readRest_None)
  define line where "line = take (Suc i) b"
  define bb1 where "bb1 = (if emitted line then bb\<lparr>B := B bb @ line\<rparr> else bb)"
  have il: "i < length b" using i by (rule IndexByte_Some_less)
  have tml: "terminated line" using terminated_take [OF i] by (simp add: line_def)
  have b1: "B bb1 = B bb @ (if emitted line then line else [])" "capacity bb1 = capacity bb"
    by (simp_all add: bb1_def)
  have step: "readRest h bb dn b n0 =
     (if emitted line \<and> capacity bb < length (B bb) + Suc i
      then (lineEffect h line, dn @ b, Reset bb, Inl ErrShortBuffer)
      else if emptyLine line
      then (lineEffect h line, dn @ b, bb1, Inr (n0 + Suc i))
      else readRest (lineEffect h line) bb1 (dn @ lineAfter line) (drop (Suc i) b) (n0 + Suc i))"
    unfolding line_def bb1_def using i by (rule readRest_Some)
  have fits: "\<not> (emitted line \<and> capacity bb < length (B bb) + Suc i)"
    using less.prems step by auto
  show ?case
  proof (cases "emptyLine line")
    case True
    then have res: "h' = lineEffect h line" "buf' = dn @ b" "bb' = bb1" "n = n0 + Suc i"
      using less.prems step fits by auto
    have ls: "lines_of (take (Suc i) b) = [line]"
      using lines_of_take_add [OF i, of 0] by (simp add: line_def)
    have la: "lineAfter line = line"
      using True by (simp add: emptyLine_emitted emitted_lineAfter)
    have "line @ drop (Suc i) b = b"
      unfolding line_def by (rule append_take_drop_id)
    then have "dn @ concat (map lineAfter [line]) @ drop (Suc i) b = dn @ b"
      by (simp add: la)
    with res ls tml b1 il True show ?thesis
      by (intro exI [of _ "Suc i"]) (simp add: blockLines_single)
  next
    case False
    then have res: "readRest (lineEffect h line) bb1 (dn @ lineAfter line) (drop (Suc i) b) (n0 + Suc i)
        = (h', buf', bb', Inr n)"
      using less.prems step fits by auto
    have "length (drop (Suc i) b) < length b" using il by simp
    from less.hyps [OF this res]
    obtain k where k: "n = n0 + Suc i + k" "0 < k" "k \<le> length (drop (Suc i) b)"
      "h' = foldl lineEffect (lineEffect h line) (lines_of (take k (drop (Suc i) b)))"
      "B bb' = B bb1 @ concat (filter emitted (lines_of (take k (drop (Suc i) b))))"
      "capacity bb' = capacity bb1"
      "buf' = (dn @ lineAfter line) @ concat (map lineAfter (lines_of (take k (drop (Suc i) b)))) @ drop k (drop (Suc i) b)"
      "blockLines (lines_of (take k (drop (Suc i) b)))"
      by blast
    have ls: "lines_of (take (Suc i + k) b) = line # lines_of (take k (drop (Suc i) b))"
      using lines_of_take_add [OF i, of k] by (simp add: line_def)
    have "blockLines (line # lines_of (take k (drop (Suc i) b)))"
      using tml False k(8) by (rule blockLines_Cons)
    with k ls b1 show ?thesis
      by (intro exI [of _ "Suc i + k"]) (simp add: add.commute)
  qed
qed

lemma readRest_Inl:
  assumes "readRest h bb dn b n0 = (h', buf', bb', Inl e)"
  shows "B bb' = [] \<and> capacity bb' = capacity bb \<and> length buf' = length dn + length b \<and>
     (e = errNeedMore \<or> e = ErrShortBuffer)"
  using assms
proof (induction "length b" arbitrary: h bb dn b n0 rule: less_induct)
  case less
  show ?case
  proof (cases "IndexByte b LF")
    case None
    with less.prems show ?thesis by (auto simp: readRest_None Reset_def)
  next
    case (Some i)
    note step = readRest_Some [OF Some, of h bb dn n0]
    have il: "i < length b" using Some by (rule IndexByte_Some_less)
    show ?thesis
    proof (cases "emitted (take (Suc i) b) \<and> capacity bb < length (B bb) + Suc i")
      case True
      with less.prems step show ?thesis by (auto simp: Reset_def)
    next
      case False
      note fits = this
      show ?thesis
      proof (cases "emptyLine (take (Suc i) b)")
        case True
        with less.prems step fits show ?thesis by auto
      next
        case False
        define bb1 where "bb1 = (if emitted (take (Suc i) b) then bb\<lparr>B := B bb @ take (Suc i) b\<rparr> else bb)"
        have res: "readRest (lineEffect h (take (Suc i) b)) bb1 (dn @ lineAfter (take (Suc i) b))
             (drop (Suc i) b) (n0 + Suc i) = (h', buf', bb', Inl e)"
          using less.prems step fits False unfolding bb1_def by auto
        have "length (drop (Suc i) b) < length b" using il by simp
        from less.hyps [OF this res]
        have "B bb' = [] \<and> capacity bb' = capacity bb1 \<and>
          length buf' = length (dn @ lineAfter (take (Suc i) b)) + length (drop (Suc i) b) \<and>
          (e = errNeedMore \<or> e = ErrShortBuffer)" .
        moreover have "length (lineAfter (take (Suc i) b)) = Suc i"
          using il by (simp add: lineAfter_def changeToLowerCase_def)
        moreover have "capacity bb1 = capacity bb" by (simp add: bb1_def)
        ultimately show ?thesis using il by simp
      qed
    qed
  qed
qed


lemma firstLine_iff:
  assumes "IndexByte buf LF = Some i"
  shows "((i = 1 \<and> buf ! 0 = CR) \<or> i = 0) \<longleftrightarrow> emptyLine (take (Suc i) buf)"
proof -
  have "((Suc i = 2 \<and> lineAfter (take (Suc i) buf) ! 0 = CR) \<or> Suc i = 1)
     \<longleftrightarrow> emptyLine (take (Suc i) buf)"
    using assms by (rule terminal_iff)
  moreover have "i = 1 \<Longrightarrow> lineAfter (take (Suc i) buf) ! 0 = buf ! 0"
    by (simp add: lineAfter_short)
  ultimately show ?thesis by auto
qed

lemma readHeaders_None:
  "IndexByte buf LF = None \<Longrightarrow> readHeaders h buf bb = (h, buf, bb, Inl errNeedMore)"
  by (simp add: readHeaders_def)

lemma readHeaders_Some:
  assumes "IndexByte buf LF = Some i"
  shows "readHeaders h buf bb =
     (if emptyLine (take (Suc i) buf) then (h, buf, bb, Inr (Suc i))
      else if emitted (take (Suc i) buf) \<and> capacity bb < Suc i
      then (lineEffect h (take (Suc i) buf), buf, Reset bb, Inl ErrShortBuffer)
      else readRest (lineEffect h (take (Suc i) buf))
            (if emitted (take (Suc i) buf) then bb\<lparr>B := take (Suc i) buf\<rparr> else Reset bb)
            (lineAfter (take (Suc i) buf)) (drop (Suc i) buf) (Suc i))"
proof -
  have il: "i < length buf" using assms by (rule IndexByte_Some_less)
  then have len: "length (take (Suc i) buf) = Suc i" by simp
  have e: "emitted (take (Suc i) buf) \<Longrightarrow> lineAfter (take (Suc i) buf) = take (Suc i) buf"
    by (rule emitted_lineAfter)
  show ?thesis
    unfolding readHeaders_def
    apply (simp only: assms option.case Let_def parseThenWriteBuffer_eq
        Suc_eq_plus1 [symmetric] firstLine_iff [OF assms])
    using len e
    by (auto simp: Write_def Reset_def append_take_drop_id simp del: take_Suc)
qed

lemma readHeaders_Inr:
  assumes "readHeaders h buf bb = (h', buf', bb', Inr n)"
  shows "0 < n \<and> n \<le> length buf \<and> blockLines (lines_of (take n buf)) \<and>
     (if emptyLine (take n buf) then h' = h \<and> buf' = buf \<and> bb' = bb
      else h' = foldl lineEffect h (lines_of (take n buf)) \<and>
           B bb' = concat (filter emitted (lines_of (take n buf))) \<and>
           capacity bb' = capacity bb \<and>
           buf' = concat (map lineAfter (lines_of (take n buf))) @ drop n buf)"
proof -
  from assms obtain i where i: "IndexByte buf LF = Some i"
    by (cases "IndexByte buf LF") (auto simp: readHeaders_None)
  define line where "line = take (Suc i) buf"
  define bb1 where "bb1 = (if emitted line then bb\<lparr>B := line\<rparr> else Reset bb)"
  have il: "i < length buf" using i by (rule IndexByte_Some_less)
  have len: "length line = Suc i" using il by (simp add: line_def)
  have tml: "terminated line" using terminated_take [OF i] by (simp add: line_def)
  have ls1: "lines_of (take (Suc i) buf) = [line]"
    using lines_of_take_add [OF i, of 0] by (simp add: line_def)
  have step: "readHeaders h buf bb =
     (if emptyLine line then (h, buf, bb, Inr (Suc i))
      else if emitted line \<and> capacity bb < Suc i
      then (lineEffect h line, buf, Reset bb, Inl ErrShortBuffer)
      else readRest (lineEffect h line) bb1 (lineAfter line) (drop (Suc i) buf) (Suc i))"
    unfolding line_def bb1_def using i by (rule readHeaders_Some)
  show ?thesis
  proof (cases "emptyLine line")
    case True
    with assms step have "h' = h" "buf' = buf" "bb' = bb" "n = Suc i" by auto
    with True ls1 tml il show ?thesis
      by (simp add: line_def [symmetric] blockLines_single)
  next
    case False
    then have res: "readRest (lineEffect h line) bb1 (lineAfter line) (drop (Suc i) buf) (Suc i)
        = (h', buf', bb', Inr n)"
      using assms step by (auto split: if_splits)
    from readRest_Inr [OF res]
    obtain k where k: "n = Suc i + k" "0 < k" "k \<le> length (drop (Suc i) buf)"
      "h' = foldl lineEffect (lineEffect h line) (lines_of (take k (drop (Suc i) buf)))"
      "B bb' = B bb1 @ concat (filter emitted (lines_of (take k (drop (Suc i) buf))))"
      "capacity bb' = capacity bb1"
      "buf' = lineAfter line @ concat (map lineAfter (lines_of (take k (drop (Suc i) buf)))) @ drop k (drop (Suc i) buf)"
      "blockLines (lines_of (take k (drop (Suc i) buf)))"
      by blast
    have ls: "lines_of (take n buf) = line # lines_of (take k (drop (Suc i) buf))"
      using lines_of_take_add [OF i, of k] k(1) by (simp add: line_def)
    have bl: "blockLines (lines_of (take n buf))"
      unfolding ls using tml False k(8) by (rule blockLines_Cons)
    have b1: "B bb1 = (if emitted line then line else [])" "capacity bb1 = capacity bb"
      by (simp_all add: bb1_def Reset_def)
    have i0: "i \<noteq> 0"
    proof
      assume "i = 0"
      then have "line = [LF]"
        using IndexByte_Some_nth [OF i] il unfolding line_def by (cases buf) auto
      with False show False by (simp add: emptyLine_def)
    qed
    have "length (take n buf) = n" using k(1,3) il by simp
    then have nel: "\<not> emptyLine (take n buf)"
      using emptyLine_length [of "take n buf"] k(1,2) i0 by linarith
    have "0 < n \<and> n \<le> length buf" using k(1,3) il by simp
    moreover have "drop k (drop (Suc i) buf) = drop n buf"
      using k(1) by (simp add: add.commute)
    ultimately show ?thesis
      using bl nel k(4,5,6,7) b1 by (simp add: ls)
  qed
qed

lemma readHeaders_Inl:
  assumes "readHeaders h buf bb = (h', buf', bb', Inl e)"
  shows "(bb' = bb \<or> B bb' = []) \<and> capacity bb' = capacity bb \<and> length buf' = length buf \<and>
     (e = errNeedMore \<or> e = ErrShortBuffer) \<and> (e = ErrShortBuffer \<longrightarrow> B bb' = [])"
proof (cases "IndexByte buf LF")
  case None
  with assms show ?thesis by (simp add: readHeaders_None)
next
  case (Some i)
  note step = readHeaders_Some [OF Some, of h bb]
  have il: "i < length buf" using Some by (rule IndexByte_Some_less)
  show ?thesis
  proof (cases "emptyLine (take (Suc i) buf)")
    case True
    with assms step show ?thesis by simp
  next
    case False
    note ne = this
    show ?thesis
    proof (cases "emitted (take (Suc i) buf) \<and> capacity bb < Suc i")
      case True
      with assms step ne show ?thesis by (auto simp: Reset_def)
    next
      case False
      define bb1 where "bb1 = (if emitted (take (Suc i) buf) then bb\<lparr>B := take (Suc i) buf\<rparr> else Reset bb)"
      have res: "readRest (lineEffect h (take (Suc i) buf)) bb1 (lineAfter (take (Suc i) buf))
          (drop (Suc i) buf) (Suc i) = (h', buf', bb', Inl e)"
        using assms step ne False unfolding bb1_def by auto
      from readRest_Inl [OF res]
      have "B bb' = [] \<and> capacity bb' = capacity bb1 \<and>
        length buf' = length (lineAfter (take (Suc i) buf)) + length (drop (Suc i) buf) \<and>
        (e = errNeedMore \<or> e = ErrShortBuffer)" .
      moreover have "length (lineAfter (take (Suc i) buf)) = Suc i"
        using il by (simp add: lineAfter_def changeToLowerCase_def)
      moreover have "capacity bb1 = capacity bb" by (simp add: bb1_def Reset_def)
      ultimately show ?thesis using il by simp
    qed
  qed
qed

lemma IndexByte_append:
  "IndexByte l c = Some i \<Longrightarrow> IndexByte (l @ r) c = Some i"
  by (induction l arbitrary: i) (auto split: if_splits)



lemma concat_lines_of: "concat (lines_of b) = b"
proof (induction b rule: lines_of.induct)
  case (1 b)
  show ?case
  proof (cases "IndexByte b LF")
    case None
    then show ?thesis by (subst lines_of.simps) simp
  next
    case (Some i)
    with 1 have "concat (lines_of (drop (i + 1) b)) = drop (i + 1) b" by simp
    with Some show ?thesis by (subst lines_of.simps) simp
  qed
qed


text \<open>The value a line gives \<open>contentLength\<close>, if it sets it.\<close>

definition framing :: "bytes \<Rightarrow> int option" where
  "framing line =
     (if isContentLengthHeader line then
        (if contentLengthValue line > 0 then Some (contentLengthValue line) else None)
      else if isTransferEncodingHeader line then
        (if Contains line ''chunked'' then Some (- 1)
         else if Contains line ''identity'' then Some (- 2) else None)
      else None)"

lemma HasPrefix_nth: "HasPrefix s p \<Longrightarrow> i < length p \<Longrightarrow> s ! i = p ! i"
  by (metis HasPrefix_def nth_take)

lemma not_Connection_framing:
  assumes "isContentLengthHeader line \<or> isTransferEncodingHeader line"
  shows "\<not> isConnectionHeader line"
proof
  assume "isConnectionHeader line"
  then have c: "line ! 0 = CHR ''C''" "line ! 3 = CHR ''n''"
    using HasPrefix_nth [of line "''Connection''" 0] HasPrefix_nth [of line "''Connection''" 3]
    by (simp_all add: isConnectionHeader_def)
  from assms show False
  proof
    assume "isContentLengthHeader line"
    then have "line ! 3 = CHR ''t''"
      using HasPrefix_nth [of line "''Content-Length''" 3]
      by (simp add: isContentLengthHeader_def)
    with c show False by simp
  next
    assume "isTransferEncodingHeader line"
    then have "line ! 0 = CHR ''T''"
      using HasPrefix_nth [of line "''Transfer-Encoding''" 0]
      by (simp add: isTransferEncodingHeader_def)
    with c show False by simp
  qed
qed

lemma contentLength_lineEffect:
  "contentLength (lineEffect h line) = (case framing line of None \<Rightarrow> contentLength h | Some v \<Rightarrow> v)"
  using not_Connection_framing [of line]
  by (auto simp: lineEffect_def framing_def)

lemma contentLength_foldl_keep:
  "contentLength h = v \<Longrightarrow> \<forall>l \<in> set post. framing l = None \<or> framing l = Some v \<Longrightarrow>
   contentLength (foldl lineEffect h post) = v"
proof (induction post arbitrary: h)
  case Nil
  then show ?case by simp
next
  case (Cons l post)
  have "contentLength (lineEffect h l) = v"
    using Cons.prems by (auto simp: contentLength_lineEffect)
  then show ?case using Cons by simp
qed

lemma contentLength_foldl_last:
  assumes "framing l = Some v" and "\<forall>l' \<in> set post. framing l' = None \<or> framing l' = Some v"
  shows "contentLength (foldl lineEffect h (pre @ l # post)) = v"
proof -
  have "contentLength (lineEffect (foldl lineEffect h pre) l) = v"
    using assms(1) by (simp add: contentLength_lineEffect)
  then show ?thesis using assms(2) by (simp add: contentLength_foldl_keep)
qed

section \<open>Body framing: the claims about \<open>contentLength\<close>\<close>

lemma emptyLine_block_lines:
  assumes "emptyLine x" and "lines_of x = pre @ l # post"
  shows "l = x"
proof -
  from assms(1) have "lines_of x = [x]"
    by (auto simp: emptyLine_def lines_of.simps)
  with assms(2) show ?thesis
    by (cases pre) auto
qed

lemma emptyLine_not_framing: "emptyLine l \<Longrightarrow> framing l = None"
  by (auto simp: emptyLine_def framing_def isContentLengthHeader_def isTransferEncodingHeader_def
      HasPrefix_def)

lemma readHeaders_contentLength:
  assumes "readHeaders h buf bb = (h', buf', bb', Inr n)"
    and "lines_of (take n buf) = pre @ l # post"
    and "framing l = Some v"
    and "\<forall>l' \<in> set post. framing l' = None \<or> framing l' = Some v"
  shows "contentLength h' = v"
proof -
  have "\<not> emptyLine (take n buf)"
  proof
    assume e: "emptyLine (take n buf)"
    then have "l = take n buf" using assms(2) by (rule emptyLine_block_lines)
    with e assms(3) show False by (simp add: emptyLine_not_framing)
  qed
  with readHeaders_Inr [OF assms(1)]
  have "h' = foldl lineEffect h (lines_of (take n buf))" by simp
  then have "h' = foldl lineEffect h (pre @ l # post)" using assms(2) by simp
  then show ?thesis
    using contentLength_foldl_last [OF assms(3,4)] by simp
qed

text \<open>
  C1 (amended). When \<^verbatim>\<open>readHeaders\<close> has parsed a header block, and the block has a line
  that begins with \<^verbatim>\<open>Transfer-Encoding\<close> and contains \<^verbatim>\<open>chunked\<close>, and no later line of the
  block is a \<^verbatim>\<open>Content-Length\<close> line with a positive value or a \<^verbatim>\<open>Transfer-Encoding\<close> line
  that contains \<^verbatim>\<open>identity\<close> and not \<^verbatim>\<open>chunked\<close>, then \<open>contentLength\<close> is \<open>-1\<close> afterwards.
  The lines before that line do not matter: a \<^verbatim>\<open>Content-Length\<close> line there is overridden.
\<close>

theorem C1_chunked_last_wins:
  assumes "readHeaders h buf bb = (h', buf', bb', Inr n)"
    and "lines_of (take n buf) = pre @ l # post"
    and "isTransferEncodingHeader l" and "Contains l ''chunked''"
    and "\<forall>l' \<in> set post.
           \<not> (isContentLengthHeader l' \<and> contentLengthValue l' > 0) \<and>
           \<not> (isTransferEncodingHeader l' \<and> Contains l' ''identity'' \<and> \<not> Contains l' ''chunked'')"
  shows "contentLength h' = - 1"
proof -
  have nc: "\<not> isContentLengthHeader l"
    using assms(3) HasPrefix_nth [of l "''Content-Length''" 0]
      HasPrefix_nth [of l "''Transfer-Encoding''" 0]
    by (auto simp: isContentLengthHeader_def isTransferEncodingHeader_def)
  have "framing l = Some (- 1)"
    using assms(3,4) nc by (simp add: framing_def)
  moreover have "\<forall>l' \<in> set post. framing l' = None \<or> framing l' = Some (- 1)"
    using assms(5) by (auto simp: framing_def)
  ultimately show ?thesis
    using assms(1,2) by (rule readHeaders_contentLength [rotated 2])
qed


text \<open>The theorem at a block with \<^verbatim>\<open>Content-Length: 5\<close> before \<^verbatim>\<open>Transfer-Encoding: chunked\<close>.\<close>

theorem C1_witness:
  "contentLength (fst (readHeaders \<lparr>isConnectionClose = False, contentLength = 0\<rparr>
      (''Content-Length: 5'' @ [CR, LF] @ ''Transfer-Encoding: chunked'' @ [CR, LF] @ [CR, LF])
      \<lparr>B = [], capacity = 100\<rparr>)) = - 1"
proof -
  let ?buf = "''Content-Length: 5'' @ [CR, LF] @ ''Transfer-Encoding: chunked'' @ [CR, LF] @ [CR, LF]"
  have r: "readHeaders \<lparr>isConnectionClose = False, contentLength = 0\<rparr> ?buf \<lparr>B = [], capacity = 100\<rparr>
      = (\<lparr>isConnectionClose = False, contentLength = - 1\<rparr>, ?buf, \<lparr>B = ?buf, capacity = 100\<rparr>, Inr 49)"
    by code_simp
  have l: "lines_of (take 49 ?buf) =
      [''Content-Length: 5'' @ [CR, LF]] @ (''Transfer-Encoding: chunked'' @ [CR, LF]) # [[CR, LF]]"
    by code_simp
  have t: "isTransferEncodingHeader (''Transfer-Encoding: chunked'' @ [CR, LF])"
    by code_simp
  have c: "Contains (''Transfer-Encoding: chunked'' @ [CR, LF]) ''chunked''"
    by code_simp
  have p: "\<forall>l' \<in> set [[CR, LF]].
           \<not> (isContentLengthHeader l' \<and> contentLengthValue l' > 0) \<and>
           \<not> (isTransferEncodingHeader l' \<and> Contains l' ''identity'' \<and> \<not> Contains l' ''chunked'')"
    by (simp add: isContentLengthHeader_def isTransferEncodingHeader_def HasPrefix_def)
  show ?thesis
    using C1_chunked_last_wins [OF r l t c p] r by simp
qed

text \<open>
  C1 as stated fails: with \<^verbatim>\<open>Content-Length: 5\<close> after \<^verbatim>\<open>Transfer-Encoding: chunked\<close>, the
  later line wins and \<open>contentLength\<close> is 5.
\<close>

theorem C1_counterexample:
  "isTransferEncodingHeader (''Transfer-Encoding: chunked'' @ [CR, LF]) \<and>
   Contains (''Transfer-Encoding: chunked'' @ [CR, LF]) ''chunked'' \<and>
   readHeaders \<lparr>isConnectionClose = False, contentLength = 0\<rparr>
      (''Transfer-Encoding: chunked'' @ [CR, LF] @ ''Content-Length: 5'' @ [CR, LF] @ [CR, LF])
      \<lparr>B = [], capacity = 100\<rparr>
    = (\<lparr>isConnectionClose = False, contentLength = 5\<rparr>,
       ''Transfer-Encoding: chunked'' @ [CR, LF] @ ''Content-Length: 5'' @ [CR, LF] @ [CR, LF],
       \<lparr>B = ''Transfer-Encoding: chunked'' @ [CR, LF] @ ''Content-Length: 5'' @ [CR, LF] @ [CR, LF],
        capacity = 100\<rparr>,
       Inr 49)"
  by code_simp



text \<open>
  C4 (amended). When \<^verbatim>\<open>readHeaders\<close> has parsed a header block with no line that begins
  with \<^verbatim>\<open>Transfer-Encoding\<close>, and \<open>l\<close> is the last line of the block that begins with
  \<^verbatim>\<open>Content-Length\<close> and has a positive value \<open>N\<close> (the decimal after the first colon,
  white space trimmed), then \<open>contentLength\<close> is \<open>N\<close> afterwards.
\<close>

theorem C4_last_content_length:
  assumes "readHeaders h buf bb = (h', buf', bb', Inr n)"
    and "lines_of (take n buf) = pre @ l # post"
    and "isContentLengthHeader l" and "contentLengthValue l = N" and "N > 0"
    and "\<forall>l' \<in> set post. \<not> (isContentLengthHeader l' \<and> contentLengthValue l' > 0)"
    and "\<forall>l' \<in> set (pre @ l # post). \<not> isTransferEncodingHeader l'"
  shows "contentLength h' = N"
proof -
  have "framing l = Some N"
    using assms(3-5) by (simp add: framing_def)
  moreover have "\<forall>l' \<in> set post. framing l' = None \<or> framing l' = Some N"
    using assms(6,7) by (auto simp: framing_def)
  ultimately show ?thesis
    using assms(1,2) by (rule readHeaders_contentLength [rotated 2])
qed

text \<open>The theorem at a block with two \<^verbatim>\<open>Content-Length\<close> lines, 5 and then 7.\<close>

theorem C4_witness:
  "contentLengthValue (''Content-Length: 7 '' @ [CR, LF]) = 7 \<and>
   contentLength (fst (readHeaders \<lparr>isConnectionClose = False, contentLength = 0\<rparr>
      (''Content-Length: 5'' @ [CR, LF] @ ''Content-Length: 7 '' @ [CR, LF] @ [CR, LF])
      \<lparr>B = [], capacity = 100\<rparr>)) = 7"
proof -
  let ?buf = "''Content-Length: 5'' @ [CR, LF] @ ''Content-Length: 7 '' @ [CR, LF] @ [CR, LF]"
  have r: "readHeaders \<lparr>isConnectionClose = False, contentLength = 0\<rparr> ?buf \<lparr>B = [], capacity = 100\<rparr>
      = (\<lparr>isConnectionClose = False, contentLength = 7\<rparr>, ?buf, \<lparr>B = ?buf, capacity = 100\<rparr>, Inr 41)"
    by code_simp
  have l: "lines_of (take 41 ?buf) =
      [''Content-Length: 5'' @ [CR, LF]] @ (''Content-Length: 7 '' @ [CR, LF]) # [[CR, LF]]"
    by code_simp
  have c: "isContentLengthHeader (''Content-Length: 7 '' @ [CR, LF])"
    by code_simp
  have v: "contentLengthValue (''Content-Length: 7 '' @ [CR, LF]) = 7"
    by code_simp
  have p: "\<forall>l' \<in> set [[CR, LF]]. \<not> (isContentLengthHeader l' \<and> contentLengthValue l' > 0)"
    by (simp add: isContentLengthHeader_def HasPrefix_def)
  have t: "\<forall>l' \<in> set ([''Content-Length: 5'' @ [CR, LF]] @ (''Content-Length: 7 '' @ [CR, LF]) # [[CR, LF]]).
      \<not> isTransferEncodingHeader l'"
    by (simp add: isTransferEncodingHeader_def HasPrefix_def)
  show ?thesis
    using C4_last_content_length [OF r l c v _ p t] v r by simp
qed

text \<open>
  C4 as stated fails: the block below has the line \<^verbatim>\<open>Content-Length: 5\<close> and no
  \<^verbatim>\<open>Transfer-Encoding\<close> line, and \<open>contentLength\<close> is 7 afterwards, the value of the later
  \<^verbatim>\<open>Content-Length\<close> line.
\<close>

theorem C4_counterexample:
  "isContentLengthHeader (''Content-Length: 5'' @ [CR, LF]) \<and>
   contentLengthValue (''Content-Length: 5'' @ [CR, LF]) = 5 \<and>
   lines_of (''Content-Length: 5'' @ [CR, LF] @ ''Content-Length: 7'' @ [CR, LF] @ [CR, LF])
     = [''Content-Length: 5'' @ [CR, LF], ''Content-Length: 7'' @ [CR, LF], [CR, LF]] \<and>
   \<not> isTransferEncodingHeader (''Content-Length: 5'' @ [CR, LF]) \<and>
   \<not> isTransferEncodingHeader (''Content-Length: 7'' @ [CR, LF]) \<and>
   \<not> isTransferEncodingHeader [CR, LF] \<and>
   readHeaders \<lparr>isConnectionClose = False, contentLength = 0\<rparr>
      (''Content-Length: 5'' @ [CR, LF] @ ''Content-Length: 7'' @ [CR, LF] @ [CR, LF])
      \<lparr>B = [], capacity = 100\<rparr>
    = (\<lparr>isConnectionClose = False, contentLength = 7\<rparr>,
       ''Content-Length: 5'' @ [CR, LF] @ ''Content-Length: 7'' @ [CR, LF] @ [CR, LF],
       \<lparr>B = ''Content-Length: 5'' @ [CR, LF] @ ''Content-Length: 7'' @ [CR, LF] @ [CR, LF],
        capacity = 100\<rparr>,
       Inr 40)"
  by code_simp

text \<open>
  C10 (amended). For every header, \<^verbatim>\<open>ContentLength()\<close> is not negative: it is the stored
  \<open>contentLength\<close> when that is positive and 0 otherwise. When \<^verbatim>\<open>readHeaders\<close> has parsed a
  block in which a \<^verbatim>\<open>Transfer-Encoding\<close> line that contains \<^verbatim>\<open>chunked\<close> or \<^verbatim>\<open>identity\<close> is
  followed by no line that sets the framing (no \<^verbatim>\<open>Content-Length\<close> line with a positive
  value, no \<^verbatim>\<open>Transfer-Encoding\<close> line with \<^verbatim>\<open>chunked\<close> or \<^verbatim>\<open>identity\<close>), then
  \<^verbatim>\<open>ContentLength()\<close> is 0, \<^verbatim>\<open>IsBodyChunked()\<close> holds exactly when the line contains
  \<^verbatim>\<open>chunked\<close>, and \<^verbatim>\<open>IsBodyIdentity()\<close> exactly when it does not.
\<close>

theorem C10_accessors:
  assumes "readHeaders h buf bb = (h', buf', bb', Inr n)"
    and "lines_of (take n buf) = pre @ l # post"
    and "isTransferEncodingHeader l"
    and "Contains l ''chunked'' \<or> Contains l ''identity''"
    and "\<forall>l' \<in> set post.
           \<not> (isContentLengthHeader l' \<and> contentLengthValue l' > 0) \<and>
           \<not> (isTransferEncodingHeader l' \<and> (Contains l' ''chunked'' \<or> Contains l' ''identity''))"
  shows "0 \<le> ContentLength header \<and>
     ContentLength header = (if contentLength header > 0 then contentLength header else 0) \<and>
     ContentLength h' = 0 \<and>
     IsBodyChunked h' = Contains l ''chunked'' \<and>
     IsBodyIdentity h' = (\<not> Contains l ''chunked'')"
proof -
  define v :: int where "v = (if Contains l ''chunked'' then - 1 else - 2)"
  have nc: "\<not> isContentLengthHeader l"
    using assms(3) HasPrefix_nth [of l "''Content-Length''" 0]
      HasPrefix_nth [of l "''Transfer-Encoding''" 0]
    by (auto simp: isContentLengthHeader_def isTransferEncodingHeader_def)
  have "framing l = Some v"
    using assms(3,4) nc by (auto simp: framing_def v_def)
  moreover have "\<forall>l' \<in> set post. framing l' = None \<or> framing l' = Some v"
    using assms(5) by (auto simp: framing_def)
  ultimately have "contentLength h' = v"
    using assms(1,2) by (rule readHeaders_contentLength [rotated 2])
  then show ?thesis
    by (auto simp: ContentLength_def IsBodyChunked_def IsBodyIdentity_def v_def)
qed

text \<open>The theorem at a block with \<^verbatim>\<open>Content-Length: 5\<close> before \<^verbatim>\<open>Transfer-Encoding: identity\<close>.\<close>

theorem C10_witness:
  "ContentLength (fst (readHeaders \<lparr>isConnectionClose = False, contentLength = 0\<rparr>
      (''Content-Length: 5'' @ [CR, LF] @ ''Transfer-Encoding: identity'' @ [CR, LF] @ [CR, LF])
      \<lparr>B = [], capacity = 100\<rparr>)) = 0 \<and>
   IsBodyIdentity (fst (readHeaders \<lparr>isConnectionClose = False, contentLength = 0\<rparr>
      (''Content-Length: 5'' @ [CR, LF] @ ''Transfer-Encoding: identity'' @ [CR, LF] @ [CR, LF])
      \<lparr>B = [], capacity = 100\<rparr>)) \<and>
   ContentLength \<lparr>isConnectionClose = False, contentLength = - 2\<rparr> = 0"
proof -
  let ?buf = "''Content-Length: 5'' @ [CR, LF] @ ''Transfer-Encoding: identity'' @ [CR, LF] @ [CR, LF]"
  have r: "readHeaders \<lparr>isConnectionClose = False, contentLength = 0\<rparr> ?buf \<lparr>B = [], capacity = 100\<rparr>
      = (\<lparr>isConnectionClose = False, contentLength = - 2\<rparr>, ?buf, \<lparr>B = ?buf, capacity = 100\<rparr>, Inr 50)"
    by code_simp
  have l: "lines_of (take 50 ?buf) =
      [''Content-Length: 5'' @ [CR, LF]] @ (''Transfer-Encoding: identity'' @ [CR, LF]) # [[CR, LF]]"
    by code_simp
  have t: "isTransferEncodingHeader (''Transfer-Encoding: identity'' @ [CR, LF])"
    by code_simp
  have c: "Contains (''Transfer-Encoding: identity'' @ [CR, LF]) ''chunked'' \<or>
      Contains (''Transfer-Encoding: identity'' @ [CR, LF]) ''identity''"
    by code_simp
  have nc: "\<not> Contains (''Transfer-Encoding: identity'' @ [CR, LF]) ''chunked''"
    by code_simp
  have p: "\<forall>l' \<in> set [[CR, LF]].
           \<not> (isContentLengthHeader l' \<and> contentLengthValue l' > 0) \<and>
           \<not> (isTransferEncodingHeader l' \<and> (Contains l' ''chunked'' \<or> Contains l' ''identity''))"
    by (simp add: isContentLengthHeader_def isTransferEncodingHeader_def HasPrefix_def)
  show ?thesis
    using C10_accessors [OF r l t c p, of "\<lparr>isConnectionClose = False, contentLength = - 2\<rparr>"] r nc
    by simp
qed

text \<open>
  C10 as stated fails in its second part: after a block with \<^verbatim>\<open>Transfer-Encoding: identity\<close>
  and then \<^verbatim>\<open>Content-Length: 5\<close>, \<^verbatim>\<open>ContentLength()\<close> is 5 and \<^verbatim>\<open>IsBodyIdentity()\<close> is false.
\<close>

theorem C10_counterexample:
  "isTransferEncodingHeader (''Transfer-Encoding: identity'' @ [CR, LF]) \<and>
   Contains (''Transfer-Encoding: identity'' @ [CR, LF]) ''identity'' \<and>
   snd (snd (snd (readHeaders \<lparr>isConnectionClose = False, contentLength = 0\<rparr>
      (''Transfer-Encoding: identity'' @ [CR, LF] @ ''Content-Length: 5'' @ [CR, LF] @ [CR, LF])
      \<lparr>B = [], capacity = 100\<rparr>))) = Inr 50 \<and>
   ContentLength (fst (readHeaders \<lparr>isConnectionClose = False, contentLength = 0\<rparr>
      (''Transfer-Encoding: identity'' @ [CR, LF] @ ''Content-Length: 5'' @ [CR, LF] @ [CR, LF])
      \<lparr>B = [], capacity = 100\<rparr>)) = 5 \<and>
   \<not> IsBodyIdentity (fst (readHeaders \<lparr>isConnectionClose = False, contentLength = 0\<rparr>
      (''Transfer-Encoding: identity'' @ [CR, LF] @ ''Content-Length: 5'' @ [CR, LF] @ [CR, LF])
      \<lparr>B = [], capacity = 100\<rparr>))"
  by code_simp

section \<open>What \<^verbatim>\<open>ParseHeaderFields\<close> does to the reader and the buffer\<close>

text \<open>All the bytes the reader has still to deliver: the buffered ones, then the script.\<close>

definition stream :: "Reader \<Rightarrow> bytes" where
  "stream b = bufd b @ concat (rd b)"

lemma Read_concat:
  "Read chunks e k = (p, e', rest) \<Longrightarrow> p @ concat rest = concat chunks"
  by (auto simp: Read_def split: list.splits if_splits)

lemma stream_fillLoop: "stream (fillLoop i b) = stream b"
proof (induction i arbitrary: b)
  case 0
  then show ?case by (simp add: stream_def)
next
  case (Suc i)
  show ?case
  proof (cases "Read (rd b) (rdErr b) (bufSize b - length (bufd b))")
    case (fields p e rest)
    then have c: "p @ concat rest = concat (rd b)" by (rule Read_concat)
    have s: "stream (b\<lparr>bufd := bufd b @ p, rd := rest\<rparr>) = stream b"
      using c by (simp add: stream_def)
    show ?thesis
    proof (cases e)
      case None
      with fields s Suc [of "b\<lparr>bufd := bufd b @ p, rd := rest\<rparr>"] show ?thesis
        by (auto simp: Let_def)
    next
      case (Some e')
      with fields s show ?thesis by (simp add: stream_def)
    qed
  qed
qed

lemma fillLoop_prefix: "\<exists>p. bufd (fillLoop i b) = bufd b @ p"
proof (induction i arbitrary: b)
  case 0
  then show ?case by simp
next
  case (Suc i)
  show ?case
  proof (cases "Read (rd b) (rdErr b) (bufSize b - length (bufd b))")
    case (fields p e rest)
    show ?thesis
    proof (cases e)
      case None
      from Suc [of "b\<lparr>bufd := bufd b @ p, rd := rest\<rparr>"]
      obtain q where "bufd (fillLoop i (b\<lparr>bufd := bufd b @ p, rd := rest\<rparr>)) = (bufd b @ p) @ q"
        by auto
      with fields None show ?thesis by (auto simp: Let_def)
    next
      case (Some e')
      with fields show ?thesis by simp
    qed
  qed
qed

lemma fillUntil_props:
  "stream (fillUntil n b) = stream b \<and> bufSize (fillUntil n b) = bufSize b \<and>
   (\<exists>p. bufd (fillUntil n b) = bufd b @ p)"
proof (induction n b rule: fillUntil.induct)
  case (1 n b)
  show ?case
  proof (cases "length (bufd b) < n \<and> length (bufd b) < bufSize b \<and> err b = None")
    case True
    then have u: "fillUntil n b = fillUntil n (fill b)"
      by (subst fillUntil.simps) simp
    from 1 [OF True] obtain p where p: "stream (fillUntil n (fill b)) = stream (fill b)"
      "bufSize (fillUntil n (fill b)) = bufSize (fill b)"
      "bufd (fillUntil n (fill b)) = bufd (fill b) @ p" by blast
    obtain q where q: "bufd (fill b) = bufd b @ q"
      using fillLoop_prefix [of 100 b] by (auto simp: fill_def)
    have "stream (fill b) = stream b" by (simp add: fill_def stream_fillLoop)
    moreover have "bufSize (fill b) = bufSize b"
      using fillLoop_bounds [of 100 b] by (simp add: fill_def)
    ultimately show ?thesis using u p q by simp
  next
    case False
    have "fillUntil n b = b" by (subst fillUntil.simps) (simp only: False if_False)
    then show ?thesis by simp
  qed
qed

lemma Peek_props:
  assumes "Peek b n = (p, e, b')"
  shows "stream b' = stream b" and "bufSize b' = bufSize b"
    and "\<exists>q. bufd b' = bufd b @ q" and "\<exists>q. bufd b' = p @ q"
    and "p = [] \<Longrightarrow> 0 < n \<Longrightarrow> bufd b' = []"
    and "p = bufd b' \<or> (e = None \<and> p = take n (bufd b') \<and> n \<le> length (bufd b'))"
proof -
  define c where "c = fillUntil n b"
  have c: "stream c = stream b" "bufSize c = bufSize b" "\<exists>q. bufd c = bufd b @ q"
    using fillUntil_props [of n b] by (simp_all add: c_def)
  have b': "b' = c \<or> b' = c\<lparr>err := None\<rparr>"
    using assms by (auto simp: Peek_def c_def Let_def split: if_splits)
  then have bd: "bufd b' = bufd c" "stream b' = stream c" "bufSize b' = bufSize c"
    by (auto simp: stream_def)
  show "stream b' = stream b" "bufSize b' = bufSize b" "\<exists>q. bufd b' = bufd b @ q"
    using c bd by simp_all
  have p: "p = bufd c \<or> (e = None \<and> p = take n (bufd c) \<and> n \<le> length (bufd c))"
    using assms by (auto simp: Peek_def c_def Let_def split: if_splits)
  then show "p = bufd b' \<or> (e = None \<and> p = take n (bufd b') \<and> n \<le> length (bufd b'))"
    using bd by simp
  from p show "\<exists>q. bufd b' = p @ q"
    using bd by (metis append_Nil2 append_take_drop_id)
  show "bufd b' = []" if "p = []" "0 < n"
    using p that bd by auto
qed

lemma Peek_Buffered:
  "bufd b \<noteq> [] \<Longrightarrow> length (bufd b) \<le> bufSize b \<Longrightarrow> Peek b (Buffered b) = (bufd b, None, b)"
  by (simp add: Peek_def Buffered_def fillUntil.simps Let_def)

lemma Discard_within:
  "0 < n \<Longrightarrow> n \<le> length (bufd b) \<Longrightarrow> Discard b n = (b\<lparr>bufd := drop n (bufd b)\<rparr>, n, None)"
  by (subst Discard_def, subst DiscardLoop.simps) (auto simp: Buffered_def Let_def)

lemma length_lineAfter [simp]: "length (lineAfter l) = length l"
  by (simp add: lineAfter_def changeToLowerCase_def)

lemma length_concat_lineAfter: "length (concat (map lineAfter ls)) = length (concat ls)"
  by (induction ls) simp_all

lemma readHeaders_length:
  assumes "readHeaders h buf bb = (h', buf', bb', res)"
  shows "length buf' = length buf"
proof (cases res)
  case (Inl e)
  with assms readHeaders_Inl show ?thesis by blast
next
  case (Inr n)
  with assms have r: "readHeaders h buf bb = (h', buf', bb', Inr n)" by simp
  note i = readHeaders_Inr [OF r]
  show ?thesis
  proof (cases "emptyLine (take n buf)")
    case True
    with i show ?thesis by simp
  next
    case False
    with i have b: "buf' = concat (map lineAfter (lines_of (take n buf))) @ drop n buf"
      and n: "n \<le> length buf" by simp_all
    have "length (concat (map lineAfter (lines_of (take n buf)))) = length (take n buf)"
      by (simp add: length_concat_lineAfter concat_lines_of)
    with b n show ?thesis by simp
  qed
qed

lemma Peek_Buffered_None:
  assumes "Peek b (Buffered b) = (p, None, b')"
  shows "p = bufd b \<and> b' = b"
proof -
  have "fillUntil (Buffered b) b = b"
    by (subst fillUntil.simps) (simp add: Buffered_def)
  with assms show ?thesis
    by (auto simp: Peek_def Buffered_def Let_def split: if_splits)
qed

lemma tryRead_cases:
  assumes "tryRead h r bb n = (h1, r1, bb1, res)"
  shows "res = Ok \<Longrightarrow> \<exists>w mo w' k. stream r = w @ mo \<and> w \<noteq> [] \<and>
            readHeaders h w bb = (h1, w', bb1, Inr k) \<and> stream r1 = drop k w' @ mo \<and>
            w = bufd (fillUntil n r)"
    and "res = Failed errNeedMore \<Longrightarrow> \<exists>w mo w'. stream r = w @ mo \<and> w \<noteq> [] \<and>
            readHeaders h w bb = (h1, w', bb1, Inl errNeedMore) \<and> stream r1 = w' @ mo \<and>
            bufd r1 = w' \<and> w = bufd (fillUntil n r)"
    and "res = Failed e \<Longrightarrow> length (stream r1) = length (stream r)"
    and "res = Failed e \<Longrightarrow> e \<noteq> errNeedMore \<Longrightarrow> bb1 = bb \<or> B bb1 = []"
proof -
  obtain p e1 ra where pk: "Peek r n = (p, e1, ra)" by (cases "Peek r n") auto
  note pa = Peek_props [OF pk]
  have fu: "bufd ra = bufd (fillUntil n r)"
    using pk by (auto simp: Peek_def Let_def split: if_splits)
  show "res = Ok \<Longrightarrow> \<exists>w mo w' k. stream r = w @ mo \<and> w \<noteq> [] \<and>
            readHeaders h w bb = (h1, w', bb1, Inr k) \<and> stream r1 = drop k w' @ mo \<and>
            w = bufd (fillUntil n r)"
  proof -
    assume ok: "res = Ok"
    have pne: "p \<noteq> []"
      using assms ok pk by (auto simp: tryRead_def split: if_splits)
    obtain p2 e2 rb where pk2: "Peek ra (Buffered ra) = (p2, e2, rb)"
      by (cases "Peek ra (Buffered ra)") auto
    have e2: "e2 = None" "p2 \<noteq> []"
      using assms ok pk pk2 pne by (auto simp: tryRead_def split: if_splits)
    with pk2 Peek_Buffered_None have p2: "p2 = bufd ra" "rb = ra" by blast+
    obtain h' w' bb' rs where rh: "readHeaders h (bufd ra) bb = (h', w', bb', rs)"
      by (cases "readHeaders h (bufd ra) bb") auto
    have "\<exists>k. rs = Inr k"
      using assms ok pk pk2 pne e2 p2 rh
      by (cases rs) (auto simp: tryRead_def split: if_splits)
    then obtain k where k: "rs = Inr k" by blast
    note i = readHeaders_Inr [OF rh [unfolded k]]
    have lw: "length w' = length (bufd ra)"
      using rh by (rule readHeaders_length)
    have kk: "0 < k" "k \<le> length w'" using i lw by simp_all
    have d: "Discard (ra\<lparr>bufd := w'\<rparr>) k = (ra\<lparr>bufd := drop k w'\<rparr>, k, None)"
      using Discard_within [of k "ra\<lparr>bufd := w'\<rparr>"] kk by simp
    have "h1 = h'" "bb1 = bb'" "r1 = ra\<lparr>bufd := drop k w'\<rparr>"
      using assms ok pk pk2 pne e2 p2 rh k d
      by (auto simp: tryRead_def split: if_splits)
    moreover have "stream r = bufd ra @ concat (rd ra)"
      using pa(1) by (simp add: stream_def)
    moreover have "bufd ra \<noteq> []" using e2 p2 by simp
    ultimately show ?thesis
      using rh k fu by (auto simp: stream_def)
  qed
  show "res = Failed errNeedMore \<Longrightarrow> \<exists>w mo w'. stream r = w @ mo \<and> w \<noteq> [] \<and>
            readHeaders h w bb = (h1, w', bb1, Inl errNeedMore) \<and> stream r1 = w' @ mo \<and>
            bufd r1 = w' \<and> w = bufd (fillUntil n r)"
  proof -
    assume nm: "res = Failed errNeedMore"
    have pne: "p \<noteq> []"
      using assms nm pk by (auto simp: tryRead_def split: if_splits)
    obtain p2 e2 rb where pk2: "Peek ra (Buffered ra) = (p2, e2, rb)"
      by (cases "Peek ra (Buffered ra)") auto
    have e2: "e2 = None" "p2 \<noteq> []"
      using assms nm pk pk2 pne by (auto simp: tryRead_def split: if_splits)
    with pk2 Peek_Buffered_None have p2: "p2 = bufd ra" "rb = ra" by blast+
    obtain h' w' bb' rs where rh: "readHeaders h (bufd ra) bb = (h', w', bb', rs)"
      by (cases "readHeaders h (bufd ra) bb") auto
    have rs: "rs = Inl errNeedMore"
    proof (cases rs)
      case (Inl x)
      with assms nm pk pk2 pne e2 p2 rh show ?thesis
        by (auto simp: tryRead_def split: if_splits)
    next
      case (Inr k)
      with assms nm pk pk2 pne e2 p2 rh show ?thesis
        by (auto simp: tryRead_def split: if_splits prod.splits option.splits)
    qed
    have "h1 = h'" "bb1 = bb'" "r1 = ra\<lparr>bufd := w'\<rparr>"
      using assms nm pk pk2 pne e2 p2 rh rs
      by (auto simp: tryRead_def split: if_splits)
    moreover have "stream r = bufd ra @ concat (rd ra)"
      using pa(1) by (simp add: stream_def)
    moreover have "bufd ra \<noteq> []" using e2 p2 by simp
    ultimately show ?thesis
      using rh rs fu by (auto simp: stream_def)
  qed
  show "res = Failed e \<Longrightarrow> length (stream r1) = length (stream r)"
  proof -
    assume f: "res = Failed e"
    show ?thesis
    proof (cases "p = []")
      case True
      with assms f pk have "r1 = ra" by (auto simp: tryRead_def split: if_splits)
      with pa(1) show ?thesis by simp
    next
      case False
      note pne = this
      obtain p2 e2 rb where pk2: "Peek ra (Buffered ra) = (p2, e2, rb)"
        by (cases "Peek ra (Buffered ra)") auto
      have e2: "e2 = None" "p2 \<noteq> []"
        using assms f pk pk2 pne by (auto simp: tryRead_def split: if_splits)
      with pk2 Peek_Buffered_None have p2: "p2 = bufd ra" "rb = ra" by blast+
      obtain h' w' bb' rs where rh: "readHeaders h (bufd ra) bb = (h', w', bb', rs)"
        by (cases "readHeaders h (bufd ra) bb") auto
      have lw: "length w' = length (bufd ra)"
        using rh by (rule readHeaders_length)
      have "r1 = ra\<lparr>bufd := w'\<rparr>"
        using assms f pk pk2 pne e2 p2 rh
        by (cases rs) (auto simp: tryRead_def split: if_splits prod.splits option.splits)
      then have "length (stream r1) = length (stream ra)"
        using lw by (simp add: stream_def)
      with pa(1) show ?thesis by simp
    qed
  qed
  show "res = Failed e \<Longrightarrow> e \<noteq> errNeedMore \<Longrightarrow> bb1 = bb \<or> B bb1 = []"
  proof -
    assume f: "res = Failed e" and ne: "e \<noteq> errNeedMore"
    show ?thesis
    proof (cases "p = []")
      case True
      with assms f pk show ?thesis by (auto simp: tryRead_def split: if_splits)
    next
      case False
      note pne = this
      obtain p2 e2 rb where pk2: "Peek ra (Buffered ra) = (p2, e2, rb)"
        by (cases "Peek ra (Buffered ra)") auto
      have e2: "e2 = None" "p2 \<noteq> []"
        using assms f pk pk2 pne by (auto simp: tryRead_def split: if_splits)
      with pk2 Peek_Buffered_None have p2: "p2 = bufd ra" "rb = ra" by blast+
      obtain h' w' bb' rs where rh: "readHeaders h (bufd ra) bb = (h', w', bb', rs)"
        by (cases "readHeaders h (bufd ra) bb") auto
      have "\<exists>x. rs = Inl x \<and> bb1 = bb'"
        using assms f pk pk2 pne e2 p2 rh
        by (cases rs) (auto simp: tryRead_def split: if_splits prod.splits option.splits)
      then obtain x where "rs = Inl x" "bb1 = bb'" by blast
      with readHeaders_Inl [of h "bufd ra" bb h' w' bb' x] rh show ?thesis by simp
    qed
  qed
qed

lemma ParseHeaderFieldsLoop_Failed:
  "ParseHeaderFieldsLoop h r bb n = Some y \<Longrightarrow>
     \<forall>h' r' bb' e. y = (h', r', bb', Failed e) \<longrightarrow> B bb' = [] \<and> e \<noteq> errNeedMore"
proof (induction rule: ParseHeaderFieldsLoop.raw_induct [rotated 1, consumes 1, case_names step])
  case (step f h r bb n y)
  obtain h1 r1 bb1 res where t: "tryRead h r bb n = (h1, r1, bb1, res)"
    by (cases "tryRead h r bb n") auto
  show ?case
  proof (cases "res = Failed errNeedMore")
    case True
    with step(2) t have "f h1 r1 bb1 (Buffered r1 + 1) = Some y" by simp
    then show ?thesis by (rule step(1))
  next
    case False
    with step(2) t show ?thesis
      by (auto simp: Reset_def split: if_splits)
  qed
qed

text \<open>
  C6. Whenever \<^verbatim>\<open>ParseHeaderFields\<close> returns an error (the wrapped short-buffer error of a
  full target buffer, the wrapped end-of-file of an empty first read, or any other), the
  target buffer is empty: it was reset before the return.
\<close>

theorem C6_buffer_reset_on_error:
  assumes "ParseHeaderFields header reader buffer = Some (header', reader', buffer', Failed e)"
  shows "B buffer' = []"
  using assms ParseHeaderFieldsLoop_Failed unfolding ParseHeaderFields_def by blast

text \<open>
  The theorem at the sixth scenario of the spec, a header block that does not fit a buffer
  of capacity 5: the error is the wrapped short-buffer error and the buffer, which held
  \<open>old\<close> before, is empty.
\<close>

theorem C6_witness:
  "ParseHeaderFields \<lparr>isConnectionClose = False, contentLength = 0\<rparr>
     \<lparr>bufd = [], bufSize = 4096, err = None, rd = [''X: y'' @ [CR, LF, CR, LF]], rdErr = EOF\<rparr>
     \<lparr>B = ''old'', capacity = 5\<rparr>
   = Some (\<lparr>isConnectionClose = False, contentLength = 0\<rparr>,
       \<lparr>bufd = ''X: y'' @ [CR, LF, CR, LF], bufSize = 4096, err = None, rd = [], rdErr = EOF\<rparr>,
       \<lparr>B = [], capacity = 5\<rparr>, Failed (errWrapper (Some ErrShortBuffer))) \<and>
   B \<lparr>B = [], capacity = 5 :: nat\<rparr> = []"
proof -
  have r: "ParseHeaderFields \<lparr>isConnectionClose = False, contentLength = 0\<rparr>
     \<lparr>bufd = [], bufSize = 4096, err = None, rd = [''X: y'' @ [CR, LF, CR, LF]], rdErr = EOF\<rparr>
     \<lparr>B = ''old'', capacity = 5\<rparr>
   = Some (\<lparr>isConnectionClose = False, contentLength = 0\<rparr>,
       \<lparr>bufd = ''X: y'' @ [CR, LF, CR, LF], bufSize = 4096, err = None, rd = [], rdErr = EOF\<rparr>,
       \<lparr>B = [], capacity = 5\<rparr>, Failed (errWrapper (Some ErrShortBuffer)))"
    by code_simp
  from C6_buffer_reset_on_error [OF r] r show ?thesis by simp
qed

lemma readRest_needMore:
  assumes "readRest h bb dn b n0 = (h', buf', bb', Inl errNeedMore)"
  shows "\<exists>P t. b = concat P @ t \<and> buf' = dn @ concat (map lineAfter P) @ t \<and>
           list_all terminated P \<and> list_all (\<lambda>l. \<not> emptyLine l) P \<and> IndexByte t LF = None"
  using assms
proof (induction "length b" arbitrary: h bb dn b n0 rule: less_induct)
  case less
  show ?case
  proof (cases "IndexByte b LF")
    case None
    with less.prems have "buf' = dn @ b" by (simp add: readRest_None)
    with None show ?thesis by (intro exI [of _ "[]"] exI [of _ b]) simp
  next
    case (Some i)
    define line where "line = take (Suc i) b"
    define bb1 where "bb1 = (if emitted line then bb\<lparr>B := B bb @ line\<rparr> else bb)"
    have il: "i < length b" using Some by (rule IndexByte_Some_less)
    have tml: "terminated line" using terminated_take [OF Some] by (simp add: line_def)
    have step: "readRest h bb dn b n0 =
       (if emitted line \<and> capacity bb < length (B bb) + Suc i
        then (lineEffect h line, dn @ b, Reset bb, Inl ErrShortBuffer)
        else if emptyLine line
        then (lineEffect h line, dn @ b, bb1, Inr (n0 + Suc i))
        else readRest (lineEffect h line) bb1 (dn @ lineAfter line) (drop (Suc i) b) (n0 + Suc i))"
      unfolding line_def bb1_def using Some by (rule readRest_Some)
    have ne: "\<not> emptyLine line" and res:
      "readRest (lineEffect h line) bb1 (dn @ lineAfter line) (drop (Suc i) b) (n0 + Suc i)
        = (h', buf', bb', Inl errNeedMore)"
      using less.prems step by (auto split: if_splits)
    have "length (drop (Suc i) b) < length b" using il by simp
    from less.hyps [OF this res]
    obtain P t where P: "drop (Suc i) b = concat P @ t"
      "buf' = (dn @ lineAfter line) @ concat (map lineAfter P) @ t"
      "list_all terminated P" "list_all (\<lambda>l. \<not> emptyLine l) P" "IndexByte t LF = None"
      by blast
    have "b = line @ drop (Suc i) b"
      unfolding line_def by simp
    then have "b = concat (line # P) @ t" using P(1) by simp
    moreover have "buf' = dn @ concat (map lineAfter (line # P)) @ t" using P(2) by simp
    ultimately show ?thesis
      using P(3,4,5) tml ne by (intro exI [of _ "line # P"] exI [of _ t]) simp
  qed
qed

lemma readHeaders_needMore:
  assumes "readHeaders h buf bb = (h', buf', bb', Inl errNeedMore)"
  shows "\<exists>P t. buf = concat P @ t \<and> buf' = concat (map lineAfter P) @ t \<and>
           list_all terminated P \<and> list_all (\<lambda>l. \<not> emptyLine l) P \<and> IndexByte t LF = None"
proof (cases "IndexByte buf LF")
  case None
  with assms have "buf' = buf" by (simp add: readHeaders_None)
  with None show ?thesis by (intro exI [of _ "[]"] exI [of _ buf]) simp
next
  case (Some i)
  define line where "line = take (Suc i) buf"
  define bb1 where "bb1 = (if emitted line then bb\<lparr>B := line\<rparr> else Reset bb)"
  have tml: "terminated line" using terminated_take [OF Some] by (simp add: line_def)
  have step: "readHeaders h buf bb =
     (if emptyLine line then (h, buf, bb, Inr (Suc i))
      else if emitted line \<and> capacity bb < Suc i
      then (lineEffect h line, buf, Reset bb, Inl ErrShortBuffer)
      else readRest (lineEffect h line) bb1 (lineAfter line) (drop (Suc i) buf) (Suc i))"
    unfolding line_def bb1_def using Some by (rule readHeaders_Some)
  have ne: "\<not> emptyLine line" and res:
    "readRest (lineEffect h line) bb1 (lineAfter line) (drop (Suc i) buf) (Suc i)
      = (h', buf', bb', Inl errNeedMore)"
    using assms step by (auto split: if_splits)
  from readRest_needMore [OF res]
  obtain P t where P: "drop (Suc i) buf = concat P @ t"
    "buf' = lineAfter line @ concat (map lineAfter P) @ t"
    "list_all terminated P" "list_all (\<lambda>l. \<not> emptyLine l) P" "IndexByte t LF = None"
    by blast
  have "buf = line @ drop (Suc i) buf"
    unfolding line_def by simp
  then have "buf = concat (line # P) @ t" using P(1) by simp
  moreover have "buf' = concat (map lineAfter (line # P)) @ t" using P(2) by simp
  ultimately show ?thesis
    using P(3,4,5) tml ne by (intro exI [of _ "line # P"] exI [of _ t]) simp
qed

lemma terminated_head_unique:
  assumes "terminated l" and "terminated l'" and "l @ x = l' @ x'"
  shows "l = l' \<and> x = x'"
proof -
  from assms(1,2) have ne: "l \<noteq> []" "l' \<noteq> []"
    and ix: "IndexByte l LF = Some (length l - 1)" "IndexByte l' LF = Some (length l' - 1)"
    by (simp_all add: terminated_def)
  have "IndexByte (l @ x) LF = Some (length l - 1)"
    using ix(1) by (rule IndexByte_append)
  moreover have "IndexByte (l' @ x') LF = Some (length l' - 1)"
    using ix(2) by (rule IndexByte_append)
  ultimately have "length l - 1 = length l' - 1" using assms(3) by simp
  then have "length l = length l'" using ne by (cases l; cases l') auto
  with assms(3) show ?thesis by simp
qed

lemma blockLines_ConsD:
  assumes "blockLines (a # ls)"
  shows "terminated a" and "ls \<noteq> [] \<Longrightarrow> \<not> emptyLine a \<and> blockLines ls"
    and "ls = [] \<Longrightarrow> emptyLine a"
  using assms by (auto simp: blockLines_def)

lemma lines_prefix_of_block:
  assumes "list_all terminated P" and "list_all (\<lambda>l. \<not> emptyLine l) P"
    and "blockLines ls" and "concat P @ x = concat ls @ y"
  shows "set P \<subseteq> set ls"
  using assms
proof (induction P arbitrary: ls x)
  case Nil
  then show ?case by simp
next
  case (Cons p P)
  from Cons.prems(3) obtain a ls' where ls: "ls = a # ls'"
    by (cases ls) (auto simp: blockLines_def)
  have tp: "terminated p" and ta: "terminated a"
    using Cons.prems(1,3) ls by (auto simp: blockLines_def)
  have "p @ (concat P @ x) = a @ (concat ls' @ y)"
    using Cons.prems(4) ls by simp
  with tp ta have pa: "p = a" and r: "concat P @ x = concat ls' @ y"
    using terminated_head_unique by blast+
  have "\<not> emptyLine a" using Cons.prems(2) pa by simp
  then have "ls' \<noteq> []" using Cons.prems(3) ls by (auto simp: blockLines_def)
  then have "blockLines ls'" using Cons.prems(3) ls blockLines_ConsD(2) by blast
  then have "set P \<subseteq> set ls'"
    using Cons.IH [of ls' x] Cons.prems(1,2) r by simp
  with pa ls show ?case by auto
qed

lemma block_unique:
  assumes "blockLines ls'" and "blockLines ls" and "concat ls' @ x = concat ls @ y"
  shows "ls' = ls \<and> x = y"
  using assms
proof (induction ls' arbitrary: ls)
  case Nil
  then show ?case by (simp add: blockLines_def)
next
  case (Cons p P)
  from Cons.prems(2) obtain a ls2 where ls: "ls = a # ls2"
    by (cases ls) (auto simp: blockLines_def)
  have tp: "terminated p" and ta: "terminated a"
    using Cons.prems(1,2) ls by (auto simp: blockLines_def)
  have "p @ (concat P @ x) = a @ (concat ls2 @ y)"
    using Cons.prems(3) ls by simp
  with tp ta have pa: "p = a" and r: "concat P @ x = concat ls2 @ y"
    using terminated_head_unique by blast+
  show ?case
  proof (cases "emptyLine a")
    case True
    then have "P = []" "ls2 = []"
      using Cons.prems(1,2) ls pa by (auto simp: blockLines_def split: if_splits)
    with pa ls r show ?thesis by simp
  next
    case False
    then have "P \<noteq> []" "ls2 \<noteq> []"
      using Cons.prems(1,2) ls pa by (auto simp: blockLines_def)
    then have "blockLines P" "blockLines ls2"
      using Cons.prems(1,2) ls blockLines_ConsD(2) by blast+
    then have "P = ls2 \<and> x = y" using Cons.IH r by blast
    with pa ls show ?thesis by simp
  qed
qed

lemma terminated_single: "terminated a \<Longrightarrow> length a \<le> 1 \<Longrightarrow> a = [LF]"
proof -
  assume t: "terminated a" and l: "length a \<le> 1"
  then obtain c where a: "a = [c]" by (cases a) (auto simp: terminated_def)
  with t have "IndexByte [c] LF = Some 0" by (simp add: terminated_def)
  then have "c = LF" by (simp split: if_splits)
  with a show ?thesis by simp
qed

lemma block_not_emptyLine:
  assumes "blockLines ls" and "length ls > 1"
  shows "\<not> emptyLine (concat ls)"
proof -
  from assms obtain a b ls' where ls: "ls = a # b # ls'"
    by (cases ls; cases "tl ls") auto
  have ta: "terminated a" and tb: "terminated b" and na: "\<not> emptyLine a"
    using assms(1) ls by (auto simp: blockLines_def)
  have "length a \<ge> 2"
  proof (rule ccontr)
    assume "\<not> length a \<ge> 2"
    then have "a = [LF]" using ta terminated_single by simp
    with na show False by (simp add: emptyLine_def)
  qed
  moreover have "length b \<ge> 1" using tb by (cases b) (auto simp: terminated_def)
  ultimately have "length (concat ls) > 2" using ls by simp
  then show ?thesis using emptyLine_length [of "concat ls"] by linarith
qed

lemma filter_emitted_all: "\<forall>l \<in> set ls. emitted l \<Longrightarrow> filter emitted ls = ls"
  by (induction ls) auto

lemma map_lineAfter_emitted: "\<forall>l \<in> set ls. emitted l \<Longrightarrow> map lineAfter ls = ls"
  by (induction ls) (auto simp: emitted_lineAfter)

lemma readHeaders_block:
  assumes "readHeaders h w bb = (h', w', bb', Inr k)"
    and "w @ mo = concat ls @ rest" and "blockLines ls"
  shows "lines_of (take k w) = ls \<and> drop k w @ mo = rest \<and> drop k w' = drop k w"
proof -
  note i = readHeaders_Inr [OF assms(1)]
  have "take k w @ (drop k w @ mo) = w @ mo"
    by (simp only: append_assoc [symmetric] append_take_drop_id)
  then have "concat (lines_of (take k w)) @ (drop k w @ mo) = concat ls @ rest"
    using assms(2) by (simp only: concat_lines_of)
  with i assms(3) have u: "lines_of (take k w) = ls \<and> drop k w @ mo = rest"
    using block_unique by blast
  have "drop k w' = drop k w"
  proof (cases "emptyLine (take k w)")
    case True
    with i show ?thesis by simp
  next
    case False
    with i have "w' = concat (map lineAfter (lines_of (take k w))) @ drop k w" by simp
    moreover have "length (concat (map lineAfter (lines_of (take k w)))) = k"
      using i by (simp add: length_concat_lineAfter concat_lines_of)
    ultimately show ?thesis by simp
  qed
  with u show ?thesis by simp
qed

lemma toLower_LF: "toLower c = LF \<longleftrightarrow> c = LF"
proof
  assume a: "toLower c = LF"
  show "c = LF"
  proof (cases "0x41 \<le> (of_char c :: int) \<and> (of_char c :: int) \<le> 0x5A")
    case True
    with a have "char_of ((of_char c :: int) + 0x20) = LF" by (simp add: toLower_def)
    then have "(of_char (char_of ((of_char c :: int) + 0x20) :: char) :: int) = of_char LF"
      by simp
    then have "((of_char c :: int) + 0x20) mod 256 = 10" by (simp only: of_char_of) simp
    with True show ?thesis by presburger
  next
    case False
    with a show ?thesis by (simp add: toLower_def)
  qed
next
  assume "c = LF"
  then show "toLower c = LF" by (simp add: toLower_def)
qed

lemma IndexByte_map_toLower: "IndexByte (map toLower l) LF = IndexByte l LF"
  by (induction l) (simp_all add: toLower_LF)

lemma terminated_lineAfter: "terminated l \<Longrightarrow> terminated (lineAfter l)"
  by (auto simp: terminated_def lineAfter_def changeToLowerCase_def IndexByte_map_toLower)

lemma emptyLine_lineAfter: "emptyLine (lineAfter l) \<longleftrightarrow> emptyLine l"
proof (cases "length l \<le> 2")
  case True
  then show ?thesis by (simp add: lineAfter_short)
next
  case False
  then have "\<not> emptyLine l" "\<not> emptyLine (lineAfter l)"
    using emptyLine_length [of l] emptyLine_length [of "lineAfter l"] by auto
  then show ?thesis by simp
qed

lemma blockLines_lineAfter:
  assumes "blockLines (P @ ls2)" and "ls2 \<noteq> []"
  shows "blockLines (map lineAfter P @ ls2)"
  using assms
  by (auto simp: blockLines_def butlast_append terminated_lineAfter emptyLine_lineAfter
      list_all_iff)

lemma lines_prefix_of_block_strong:
  assumes "list_all terminated P" and "list_all (\<lambda>l. \<not> emptyLine l) P"
    and "blockLines ls" and "concat P @ x = concat ls @ y"
  shows "\<exists>ls2. ls = P @ ls2 \<and> ls2 \<noteq> [] \<and> x = concat ls2 @ y"
  using assms
proof (induction P arbitrary: ls)
  case Nil
  then show ?case by (auto simp: blockLines_def)
next
  case (Cons p P)
  from Cons.prems(3) obtain a ls' where ls: "ls = a # ls'"
    by (cases ls) (auto simp: blockLines_def)
  have tp: "terminated p" and ta: "terminated a"
    using Cons.prems(1,3) ls by (auto simp: blockLines_def)
  have "p @ (concat P @ x) = a @ (concat ls' @ y)"
    using Cons.prems(4) ls by simp
  with tp ta have pa: "p = a" and r: "concat P @ x = concat ls' @ y"
    using terminated_head_unique by blast+
  have "\<not> emptyLine a" using Cons.prems(2) pa by simp
  then have "ls' \<noteq> []" using Cons.prems(3) ls by (auto simp: blockLines_def)
  then have "blockLines ls'" using Cons.prems(3) ls blockLines_ConsD(2) by blast
  then obtain ls2 where "ls' = P @ ls2" "ls2 \<noteq> []" "x = concat ls2 @ y"
    using Cons.IH [of ls'] Cons.prems(1,2) r by auto
  with pa ls show ?case by simp
qed

lemma ParseHeaderFieldsLoop_frame:
  "ParseHeaderFieldsLoop h r bb n = Some y \<Longrightarrow>
     \<forall>h' r' bb' res. y = (h', r', bb', res) \<longrightarrow>
       (\<forall>e. res = Failed e \<longrightarrow> length (stream r') = length (stream r)) \<and>
       (res = Ok \<longrightarrow> (\<forall>ls rest. stream r = concat ls @ rest \<and> blockLines ls \<longrightarrow> stream r' = rest))"
proof (induction rule: ParseHeaderFieldsLoop.raw_induct [rotated 1, consumes 1, case_names step])
  case (step f h r bb n y)
  obtain h1 r1 bb1 res1 where t: "tryRead h r bb n = (h1, r1, bb1, res1)"
    by (cases "tryRead h r bb n") auto
  show ?case
  proof (cases "res1 = Failed errNeedMore")
    case True
    with step(2) t have call: "f h1 r1 bb1 (Buffered r1 + 1) = Some y" by simp
    note ih = step(1) [OF call]
    from tryRead_cases(2) [OF t True]
    obtain w mo w' where w: "stream r = w @ mo"
      "readHeaders h w bb = (h1, w', bb1, Inl errNeedMore)" "stream r1 = w' @ mo" by blast
    have len: "length (stream r1) = length (stream r)"
      using tryRead_cases(3) [OF t True] .
    from readHeaders_needMore [OF w(2)]
    obtain P t where P: "w = concat P @ t" "w' = concat (map lineAfter P) @ t"
      "list_all terminated P" "list_all (\<lambda>l. \<not> emptyLine l) P" by blast
    have blk: "stream r' = rest"
      if s: "stream r = concat ls @ rest" and bl: "blockLines ls" and y: "y = (h', r', bb', Ok)"
      for ls rest h' r' bb'
    proof -
      have "concat P @ (t @ mo) = concat ls @ rest"
        using s w(1) P(1) by simp
      from lines_prefix_of_block_strong [OF P(3,4) bl this]
      obtain ls2 where l2: "ls = P @ ls2" "ls2 \<noteq> []" "t @ mo = concat ls2 @ rest" by blast
      have "blockLines (map lineAfter P @ ls2)"
        using bl l2(1,2) blockLines_lineAfter by simp
      moreover have "stream r1 = concat (map lineAfter P @ ls2) @ rest"
        using w(3) P(2) l2(3) by simp
      ultimately show ?thesis using ih y by blast
    qed
    show ?thesis
    proof (intro allI impI)
      fix h' r' bb' res
      assume y: "y = (h', r', bb', res)"
      from ih y have ih1: "\<forall>e. res = Failed e \<longrightarrow> length (stream r') = length (stream r1)"
        by blast
      show "(\<forall>e. res = Failed e \<longrightarrow> length (stream r') = length (stream r)) \<and>
       (res = Ok \<longrightarrow> (\<forall>ls rest. stream r = concat ls @ rest \<and> blockLines ls \<longrightarrow> stream r' = rest))"
      proof (intro conjI allI impI)
        fix e
        assume "res = Failed e"
        with ih1 len show "length (stream r') = length (stream r)" by simp
      next
        fix ls rest
        assume o: "res = Ok" and b: "stream r = concat ls @ rest \<and> blockLines ls"
        from o y have "y = (h', r', bb', Ok)" by simp
        with b show "stream r' = rest" using blk by blast
      qed
    qed
  next
    case False
    note nm = this
    show ?thesis
    proof (cases "res1 = Ok")
      case True
      with step(2) t have y: "y = (h1, r1, bb1, Ok)" by auto
      from tryRead_cases(1) [OF t True]
      obtain w mo w' k where w: "stream r = w @ mo"
        "readHeaders h w bb = (h1, w', bb1, Inr k)" "stream r1 = drop k w' @ mo" by blast
      have "stream r1 = rest" if s: "stream r = concat ls @ rest" and bl: "blockLines ls"
        for ls rest
      proof -
        have "w @ mo = concat ls @ rest" using s w(1) by simp
        from readHeaders_block [OF w(2) this bl] w(3) show ?thesis by simp
      qed
      with y show ?thesis by simp
    next
      case False
      show ?thesis
      proof (cases res1)
        case Ok
        with False show ?thesis by simp
      next
        case (Failed e)
        with step(2) t nm have y: "y = (h1, r1, Reset bb1, Failed e)" by auto
        from tryRead_cases(3) [OF t Failed] y show ?thesis by simp
      next
        case Panicked
        with step(2) t have "y = (h1, r1, bb1, Panicked)" by auto
        then show ?thesis by simp
      qed
    qed
  qed
qed

lemma length_concat_filter: "length (concat (filter Q ls)) \<le> length (concat ls)"
  by (induction ls) auto

lemma readRest_short:
  assumes "readRest h bb dn b n0 = (h', buf', bb', Inl ErrShortBuffer)"
  shows "\<exists>P l t. b = concat P @ l @ t \<and> list_all terminated P \<and>
           list_all (\<lambda>l. \<not> emptyLine l) P \<and> terminated l \<and>
           capacity bb < length (B bb) + length (concat (filter emitted P)) + length l"
  using assms
proof (induction "length b" arbitrary: h bb dn b n0 rule: less_induct)
  case less
  show ?case
  proof (cases "IndexByte b LF")
    case None
    with less.prems show ?thesis by (simp add: readRest_None)
  next
    case (Some i)
    define line where "line = take (Suc i) b"
    define bb1 where "bb1 = (if emitted line then bb\<lparr>B := B bb @ line\<rparr> else bb)"
    have il: "i < length b" using Some by (rule IndexByte_Some_less)
    have tml: "terminated line" using terminated_take [OF Some] by (simp add: line_def)
    have ll: "length line = Suc i" using il by (simp add: line_def)
    have bs: "b = line @ drop (Suc i) b" unfolding line_def by simp
    have step: "readRest h bb dn b n0 =
       (if emitted line \<and> capacity bb < length (B bb) + Suc i
        then (lineEffect h line, dn @ b, Reset bb, Inl ErrShortBuffer)
        else if emptyLine line
        then (lineEffect h line, dn @ b, bb1, Inr (n0 + Suc i))
        else readRest (lineEffect h line) bb1 (dn @ lineAfter line) (drop (Suc i) b) (n0 + Suc i))"
      unfolding line_def bb1_def using Some by (rule readRest_Some)
    show ?thesis
    proof (cases "emitted line \<and> capacity bb < length (B bb) + Suc i")
      case True
      have "b = concat [] @ line @ drop (Suc i) b" using bs by simp
      then show ?thesis
        using tml True ll
        by (intro exI [of _ "[]"] exI [of _ line] exI [of _ "drop (Suc i) b"]) simp
    next
      case False
      with less.prems step have ne: "\<not> emptyLine line" and res:
        "readRest (lineEffect h line) bb1 (dn @ lineAfter line) (drop (Suc i) b) (n0 + Suc i)
          = (h', buf', bb', Inl ErrShortBuffer)"
        by (auto split: if_splits)
      have "length (drop (Suc i) b) < length b" using il by simp
      from less.hyps [OF this res]
      obtain P l t where P: "drop (Suc i) b = concat P @ l @ t"
        "list_all terminated P" "list_all (\<lambda>l. \<not> emptyLine l) P" "terminated l"
        "capacity bb1 < length (B bb1) + length (concat (filter emitted P)) + length l"
        by blast
      have c: "capacity bb < length (B bb) + length (concat (filter emitted (line # P))) + length l"
        using P(5) by (auto simp: bb1_def split: if_splits)
      have "b = concat (line # P) @ l @ t" using bs P(1) by simp
      then show ?thesis
        using P(2,3,4) tml ne c
        by (intro exI [of _ "line # P"] exI [of _ l] exI [of _ t]) simp
    qed
  qed
qed

lemma readHeaders_short:
  assumes "readHeaders h buf bb = (h', buf', bb', Inl ErrShortBuffer)"
  shows "\<exists>P l t. buf = concat P @ l @ t \<and> list_all terminated P \<and>
           list_all (\<lambda>l. \<not> emptyLine l) P \<and> terminated l \<and>
           capacity bb < length (concat (filter emitted P)) + length l"
proof (cases "IndexByte buf LF")
  case None
  with assms show ?thesis by (simp add: readHeaders_None)
next
  case (Some i)
  define line where "line = take (Suc i) buf"
  define bb1 where "bb1 = (if emitted line then bb\<lparr>B := line\<rparr> else Reset bb)"
  have il: "i < length buf" using Some by (rule IndexByte_Some_less)
  have tml: "terminated line" using terminated_take [OF Some] by (simp add: line_def)
  have ll: "length line = Suc i" using il by (simp add: line_def)
  have bs: "buf = line @ drop (Suc i) buf" unfolding line_def by simp
  have step: "readHeaders h buf bb =
     (if emptyLine line then (h, buf, bb, Inr (Suc i))
      else if emitted line \<and> capacity bb < Suc i
      then (lineEffect h line, buf, Reset bb, Inl ErrShortBuffer)
      else readRest (lineEffect h line) bb1 (lineAfter line) (drop (Suc i) buf) (Suc i))"
    unfolding line_def bb1_def using Some by (rule readHeaders_Some)
  have ne: "\<not> emptyLine line" using assms step by (auto split: if_splits)
  show ?thesis
  proof (cases "emitted line \<and> capacity bb < Suc i")
    case True
    have "buf = concat [] @ line @ drop (Suc i) buf" using bs by simp
    then show ?thesis
      using tml True ll
      by (intro exI [of _ "[]"] exI [of _ line] exI [of _ "drop (Suc i) buf"]) simp
  next
    case False
    with assms step ne have res:
      "readRest (lineEffect h line) bb1 (lineAfter line) (drop (Suc i) buf) (Suc i)
        = (h', buf', bb', Inl ErrShortBuffer)"
      by (auto split: if_splits)
    from readRest_short [OF res]
    obtain P l t where P: "drop (Suc i) buf = concat P @ l @ t"
      "list_all terminated P" "list_all (\<lambda>l. \<not> emptyLine l) P" "terminated l"
      "capacity bb1 < length (B bb1) + length (concat (filter emitted P)) + length l"
      by blast
    have c: "capacity bb < length (concat (filter emitted (line # P))) + length l"
      using P(5) by (auto simp: bb1_def Reset_def split: if_splits)
    have "buf = concat (line # P) @ l @ t" using bs P(1) by simp
    then show ?thesis
      using P(2,3,4) tml ne c
      by (intro exI [of _ "line # P"] exI [of _ l] exI [of _ t]) simp
  qed
qed

text \<open>A window on a stream that begins with a header block: what \<^verbatim>\<open>readHeaders\<close> can
  answer.\<close>

lemma window_not_short:
  assumes "readHeaders h w bb = (h', w', bb', Inl ErrShortBuffer)"
    and "w @ mo = concat ls @ rest" and "blockLines ls"
  shows "capacity bb < length (concat ls)"
proof -
  from readHeaders_short [OF assms(1)]
  obtain P l t where P: "w = concat P @ l @ t"
    "list_all terminated P" "list_all (\<lambda>l. \<not> emptyLine l) P" "terminated l"
    "capacity bb < length (concat (filter emitted P)) + length l"
    by blast
  have "concat P @ (l @ t @ mo) = concat ls @ rest" using assms(2) P(1) by simp
  from lines_prefix_of_block_strong [OF P(2,3) assms(3) this]
  obtain ls2 where ls2: "ls = P @ ls2" "ls2 \<noteq> []" "l @ t @ mo = concat ls2 @ rest" by blast
  then obtain a ls3 where a: "ls2 = a # ls3" by (cases ls2) auto
  have "terminated a" using assms(3) ls2(1) a by (simp add: blockLines_def)
  moreover have "l @ (t @ mo) = a @ (concat ls3 @ rest)" using ls2(3) a by simp
  ultimately have "l = a" using P(4) terminated_head_unique by blast
  then have "length (concat ls) = length (concat P) + length l + length (concat ls3)"
    using ls2(1) a by simp
  moreover have "length (concat (filter emitted P)) \<le> length (concat P)"
    by (rule length_concat_filter)
  ultimately show ?thesis using P(5) by linarith
qed

lemma terminated_LF: "terminated a \<Longrightarrow> LF \<in> set a"
  by (auto simp: terminated_def dest: IndexByte_Some_nth IndexByte_Some_less
      simp: in_set_conv_nth)

lemma window_needMore:
  assumes "readHeaders h w bb = (h', w', bb', Inl errNeedMore)"
    and "w @ mo = concat ls @ rest" and "blockLines ls"
  shows "length w < length (concat ls) \<and>
     ((\<forall>l \<in> set ls. \<not> isConnectionHeader l) \<longrightarrow> w' = w)"
proof -
  from readHeaders_needMore [OF assms(1)]
  obtain P t where P: "w = concat P @ t" "w' = concat (map lineAfter P) @ t"
    "list_all terminated P" "list_all (\<lambda>l. \<not> emptyLine l) P" "IndexByte t LF = None"
    by blast
  have "concat P @ (t @ mo) = concat ls @ rest" using assms(2) P(1) by simp
  from lines_prefix_of_block_strong [OF P(3,4) assms(3) this]
  obtain ls2 where ls2: "ls = P @ ls2" "ls2 \<noteq> []" "t @ mo = concat ls2 @ rest" by blast
  then obtain a ls3 where a: "ls2 = a # ls3" by (cases ls2) auto
  have ta: "terminated a" using assms(3) ls2(1) a by (simp add: blockLines_def)
  have "length t < length a"
  proof (rule ccontr)
    assume "\<not> length t < length a"
    then have la: "length a \<le> length t" by simp
    have "t @ mo = a @ (concat ls3 @ rest)" using ls2(3) a by simp
    then have "take (length a) (t @ mo) = a" by simp
    then have "take (length a) t = a" using la by simp
    then have "set a \<subseteq> set t" by (metis set_take_subset)
    then have "LF \<in> set t" using terminated_LF [OF ta] by blast
    then show False using P(5) by (simp add: IndexByte_None_iff)
  qed
  then have l: "length w < length (concat ls)" using P(1) ls2(1) a by simp
  have "w' = w" if "\<forall>l \<in> set ls. \<not> isConnectionHeader l"
  proof -
    have "\<forall>l \<in> set P. lineAfter l = l" using that ls2(1) by (simp add: lineAfter_def)
    then have "map lineAfter P = P" by (induction P) auto
    with P(1,2) show ?thesis by simp
  qed
  with l show ?thesis by blast
qed

lemma window_block:
  assumes "readHeaders h w bb = (h', w', bb', Inr k)"
    and "w @ mo = concat ls @ rest" and "blockLines ls" and "length ls > 1"
  shows "0 < k" and "k \<le> length w" and "length w' = length w"
    and "B bb' = concat (filter emitted ls)" and "drop k w' @ mo = rest"
proof -
  note i = readHeaders_Inr [OF assms(1)]
  from readHeaders_block [OF assms(1,2,3)]
  have u: "lines_of (take k w) = ls" "drop k w @ mo = rest" "drop k w' = drop k w"
    by simp_all
  have tk: "take k w = concat ls" using u(1) concat_lines_of [of "take k w"] by simp
  then have "\<not> emptyLine (take k w)" using block_not_emptyLine [OF assms(3,4)] by simp
  with i show "B bb' = concat (filter emitted ls)" using u(1) by simp
  show "length w' = length w" using assms(1) by (rule readHeaders_length)
  show "0 < k" "k \<le> length w" using i by simp_all
  show "drop k w' @ mo = rest" using u by simp
qed

lemma fill_chunk:
  assumes "length (bufd r) < bufSize r" and "rd r = c # cs" and "c \<noteq> []"
  shows "fill r = r\<lparr>bufd := bufd r @ take (bufSize r - length (bufd r)) c,
                   rd := (if length c \<le> bufSize r - length (bufd r) then cs
                          else drop (bufSize r - length (bufd r)) c # cs)\<rparr>"
proof -
  have n: "(100 :: nat) = Suc 99" by simp
  have "take (bufSize r - length (bufd r)) c \<noteq> []" using assms(1,3) by simp
  then show ?thesis
    apply (simp only: fill_def n)
    apply (subst fillLoop.simps(2))
    using assms(2) by (simp add: Read_def Let_def)
qed

lemma fill_ready:
  assumes "length (bufd r) < bufSize r" and "err r = None" and "[] \<notin> set (rd r)"
    and "rd r \<noteq> []"
  shows "length (bufd r) < length (bufd (fill r)) \<and> length (bufd (fill r)) \<le> bufSize r \<and>
     bufSize (fill r) = bufSize r \<and> err (fill r) = None \<and> [] \<notin> set (rd (fill r)) \<and>
     stream (fill r) = stream r"
proof -
  from assms(4) obtain c cs where c: "rd r = c # cs" by (cases "rd r") auto
  with assms(3) have ne: "c \<noteq> []" "[] \<notin> set cs" by auto
  note f = fill_chunk [OF assms(1) c ne(1)]
  have "stream (fill r) = stream r" by (simp add: fill_def stream_fillLoop)
  moreover have "length (bufd r) < length (bufd (fill r))"
    using f ne(1) assms(1) by simp
  moreover have "[] \<notin> set (rd (fill r))"
    using f ne by (auto split: if_splits)
  ultimately show ?thesis using f assms(1,2) by simp
qed

lemma Peek_buffered:
  assumes "n \<le> length (bufd r)" and "length (bufd r) \<le> bufSize r"
  shows "Peek r n = (take n (bufd r), None, r)"
proof -
  have "fillUntil n r = r" using assms(1) by (subst fillUntil.simps) simp
  then show ?thesis using assms by (simp add: Peek_def Let_def)
qed

lemma Peek_next:
  assumes "length (bufd r) < bufSize r" and "err r = None" and "[] \<notin> set (rd r)"
    and "rd r \<noteq> []"
  shows "Peek r (Suc (length (bufd r))) = (take (Suc (length (bufd r))) (bufd (fill r)), None, fill r)"
proof -
  note f = fill_ready [OF assms]
  have "fillUntil (Suc (length (bufd r))) r = fillUntil (Suc (length (bufd r))) (fill r)"
    using assms(1,2) by (subst fillUntil.simps) simp
  also have "\<dots> = fill r" using f by (subst fillUntil.simps) simp
  finally have "fillUntil (Suc (length (bufd r))) r = fill r" .
  then show ?thesis using f assms(1) by (simp add: Peek_def Let_def)
qed

lemma tryRead_window:
  assumes "Peek r n = (p, e, ra)" and "p \<noteq> []" and "length (bufd ra) \<le> bufSize ra"
  shows "tryRead h r bb n =
     (case readHeaders h (bufd ra) bb of
        (h', b', bb', Inl e') \<Rightarrow>
          (h', ra\<lparr>bufd := b'\<rparr>, bb',
           Failed (if e' = errNeedMore then errNeedMore else errWrapper (Some e')))
      | (h', b', bb', Inr k) \<Rightarrow>
          (case Discard (ra\<lparr>bufd := b'\<rparr>) k of
             (r3, d, Some e') \<Rightarrow> (h', r3, bb', Panicked)
           | (r3, d, None) \<Rightarrow> (h', r3, bb', Ok)))"
proof -
  have "\<exists>q. bufd ra = p @ q" using assms(1) by (rule Peek_props(4))
  with assms(2) have ne: "bufd ra \<noteq> []" by auto
  then have pk2: "Peek ra (Buffered ra) = (bufd ra, None, ra)"
    using assms(3) by (rule Peek_Buffered)
  show ?thesis
    unfolding tryRead_def using assms(1,2) pk2 ne
    by (auto split: prod.splits sum.splits option.splits)
qed

text \<open>One attempt of \<^verbatim>\<open>tryRead\<close> on a stream that begins with a header block with no
  \<^verbatim>\<open>Connection\<close> line: it parses the block when the window holds it, and asks for more,
  leaving the reader with the same window, when it does not.\<close>

lemma tryRead_block:
  assumes pk: "Peek r n = (p, e, ra)" and pne: "p \<noteq> []"
    and wf: "length (bufd ra) \<le> bufSize ra"
    and s: "stream ra = concat ls @ rest" and bl: "blockLines ls" and len: "length ls > 1"
    and nc: "\<forall>l \<in> set ls. \<not> isConnectionHeader l"
    and cap: "length (concat ls) \<le> capacity bb"
  shows "(\<exists>h1 r1 bb1. tryRead h r bb n = (h1, r1, bb1, Ok) \<and>
            B bb1 = concat (filter emitted ls) \<and> stream r1 = rest) \<or>
         (length (bufd ra) < length (concat ls) \<and>
          (\<exists>h1 bb1. tryRead h r bb n = (h1, ra, bb1, Failed errNeedMore) \<and>
             capacity bb1 = capacity bb))"
proof -
  obtain h1 w' bb1 rs where rh: "readHeaders h (bufd ra) bb = (h1, w', bb1, rs)"
    by (cases "readHeaders h (bufd ra) bb") auto
  have sw: "bufd ra @ concat (rd ra) = concat ls @ rest" using s by (simp add: stream_def)
  note tw = tryRead_window [OF pk pne wf, of h bb]
  show ?thesis
  proof (cases rs)
    case (Inl x)
    with rh have rh': "readHeaders h (bufd ra) bb = (h1, w', bb1, Inl x)" by simp
    note i = readHeaders_Inl [OF rh']
    have "x \<noteq> ErrShortBuffer"
      using window_not_short [OF _ sw bl] rh' cap by fastforce
    with i have x: "x = errNeedMore" by simp
    from window_needMore [OF rh' [unfolded x] sw bl] nc
    have l: "length (bufd ra) < length (concat ls)" and w: "w' = bufd ra" by simp_all
    have "tryRead h r bb n = (h1, ra, bb1, Failed errNeedMore)"
      using tw rh' x w by simp
    with l i show ?thesis by blast
  next
    case (Inr k)
    with rh have rh': "readHeaders h (bufd ra) bb = (h1, w', bb1, Inr k)" by simp
    note b = window_block [OF rh' sw bl len]
    have d: "Discard (ra\<lparr>bufd := w'\<rparr>) k = (ra\<lparr>bufd := drop k w'\<rparr>, k, None)"
      using Discard_within [of k "ra\<lparr>bufd := w'\<rparr>"] b(1,2,3) by simp
    have "tryRead h r bb n = (h1, ra\<lparr>bufd := drop k w'\<rparr>, bb1, Ok)"
      using tw rh' d by simp
    moreover have "stream (ra\<lparr>bufd := drop k w'\<rparr>) = rest"
      using b(5) by (simp add: stream_def)
    ultimately show ?thesis using b(4) by blast
  qed
qed

lemma blockLines_nonempty: "blockLines ls \<Longrightarrow> concat ls \<noteq> []"
  by (cases ls) (auto simp: blockLines_def terminated_def)

text \<open>The retries of \<^verbatim>\<open>ParseHeaderFields\<close> end: each one reads at least one more byte of
  the block.\<close>

lemma ParseHeaderFieldsLoop_returns:
  assumes "stream r = concat ls @ rest" and "blockLines ls" and "length ls > 1"
    and "\<forall>l \<in> set ls. \<not> isConnectionHeader l"
    and "length (concat ls) \<le> capacity bb" and "length (concat ls) \<le> bufSize r"
    and "err r = None" and "[] \<notin> set (rd r)" and "length (bufd r) < length (concat ls)"
  shows "\<exists>h' r' bb'. ParseHeaderFieldsLoop h r bb (Suc (length (bufd r))) = Some (h', r', bb', Ok) \<and>
           B bb' = concat (filter emitted ls) \<and> stream r' = rest"
  using assms
proof (induction "length (concat ls) - length (bufd r)" arbitrary: h r bb rule: less_induct)
  case less
  have lt: "length (bufd r) < bufSize r" using less.prems(6,9) by simp
  have "length (bufd r) + length (concat (rd r)) = length (concat ls) + length rest"
    using less.prems(1) by (metis length_append stream_def)
  then have "0 < length (concat (rd r))" using less.prems(9) by linarith
  then have rne: "rd r \<noteq> []" by (cases "rd r") simp_all
  note f = fill_ready [OF lt less.prems(7,8) rne]
  have pk: "Peek r (Suc (length (bufd r))) =
      (take (Suc (length (bufd r))) (bufd (fill r)), None, fill r)"
    using lt less.prems(7,8) rne by (rule Peek_next)
  have pne: "take (Suc (length (bufd r))) (bufd (fill r)) \<noteq> []" using f by auto
  have wf: "length (bufd (fill r)) \<le> bufSize (fill r)" using f by simp
  have s: "stream (fill r) = concat ls @ rest" using f less.prems(1) by simp
  from tryRead_block [OF pk pne wf s less.prems(2,3,4,5), of h]
  show ?case
  proof
    assume "\<exists>h1 r1 bb1. tryRead h r bb (Suc (length (bufd r))) = (h1, r1, bb1, Ok) \<and>
            B bb1 = concat (filter emitted ls) \<and> stream r1 = rest"
    then obtain h1 r1 bb1 where t: "tryRead h r bb (Suc (length (bufd r))) = (h1, r1, bb1, Ok)"
      "B bb1 = concat (filter emitted ls)" "stream r1 = rest" by blast
    have "ParseHeaderFieldsLoop h r bb (Suc (length (bufd r))) = Some (h1, r1, bb1, Ok)"
      by (subst ParseHeaderFieldsLoop.simps) (simp add: t(1))
    with t(2,3) show ?thesis by blast
  next
    assume "length (bufd (fill r)) < length (concat ls) \<and>
          (\<exists>h1 bb1. tryRead h r bb (Suc (length (bufd r))) = (h1, fill r, bb1, Failed errNeedMore) \<and>
             capacity bb1 = capacity bb)"
    then obtain h1 bb1 where t: "length (bufd (fill r)) < length (concat ls)"
      "tryRead h r bb (Suc (length (bufd r))) = (h1, fill r, bb1, Failed errNeedMore)"
      "capacity bb1 = capacity bb" by blast
    have u: "ParseHeaderFieldsLoop h r bb (Suc (length (bufd r))) =
        ParseHeaderFieldsLoop h1 (fill r) bb1 (Suc (length (bufd (fill r))))"
      by (subst ParseHeaderFieldsLoop.simps) (simp add: t(2) Buffered_def)
    have m: "length (concat ls) - length (bufd (fill r)) < length (concat ls) - length (bufd r)"
      using f t(1) by linarith
    have "\<exists>h' r' bb'. ParseHeaderFieldsLoop h1 (fill r) bb1 (Suc (length (bufd (fill r))))
          = Some (h', r', bb', Ok) \<and> B bb' = concat (filter emitted ls) \<and> stream r' = rest"
      using less.hyps [OF m s less.prems(2,3,4)] less.prems(5,6) t(1,3) f by simp
    with u show ?thesis by simp
  qed
qed

lemma ParseHeaderFields_returns:
  assumes "stream r = concat ls @ rest" and "blockLines ls" and "length ls > 1"
    and "\<forall>l \<in> set ls. \<not> isConnectionHeader l"
    and "length (concat ls) \<le> capacity bb" and "length (concat ls) \<le> bufSize r"
    and "length (bufd r) \<le> bufSize r" and "err r = None" and "[] \<notin> set (rd r)"
  shows "\<exists>h' r' bb'. ParseHeaderFields h r bb = Some (h', r', bb', Ok) \<and>
           B bb' = concat (filter emitted ls) \<and> stream r' = rest"
proof (cases "bufd r = []")
  case True
  have "length (bufd r) < length (concat ls)"
    using True blockLines_nonempty [OF assms(2)] by simp
  from ParseHeaderFieldsLoop_returns [OF assms(1,2,3,4,5,6,8,9) this, of h]
  show ?thesis unfolding ParseHeaderFields_def using True by simp
next
  case False
  then have "1 \<le> length (bufd r)" by (cases "bufd r") auto
  then have pk: "Peek r 1 = (take 1 (bufd r), None, r)"
    using assms(7) by (rule Peek_buffered)
  have pne: "take 1 (bufd r) \<noteq> []" using False by simp
  from tryRead_block [OF pk pne assms(7,1,2,3,4,5), of h]
  show ?thesis
  proof
    assume "\<exists>h1 r1 bb1. tryRead h r bb 1 = (h1, r1, bb1, Ok) \<and>
            B bb1 = concat (filter emitted ls) \<and> stream r1 = rest"
    then obtain h1 r1 bb1 where t: "tryRead h r bb 1 = (h1, r1, bb1, Ok)"
      "B bb1 = concat (filter emitted ls)" "stream r1 = rest" by blast
    have "ParseHeaderFields h r bb = Some (h1, r1, bb1, Ok)"
      unfolding ParseHeaderFields_def
      by (subst ParseHeaderFieldsLoop.simps) (use t(1) in simp)
    with t(2,3) show ?thesis by blast
  next
    assume "length (bufd r) < length (concat ls) \<and>
          (\<exists>h1 bb1. tryRead h r bb 1 = (h1, r, bb1, Failed errNeedMore) \<and>
             capacity bb1 = capacity bb)"
    then obtain h1 bb1 where t: "length (bufd r) < length (concat ls)"
      "tryRead h r bb 1 = (h1, r, bb1, Failed errNeedMore)"
      "capacity bb1 = capacity bb" by blast
    have u: "ParseHeaderFields h r bb =
        ParseHeaderFieldsLoop h1 r bb1 (Suc (length (bufd r)))"
      unfolding ParseHeaderFields_def
      by (subst ParseHeaderFieldsLoop.simps) (use t(2) in \<open>simp add: Buffered_def\<close>)
    have "\<exists>h' r' bb'. ParseHeaderFieldsLoop h1 r bb1 (Suc (length (bufd r)))
          = Some (h', r', bb', Ok) \<and> B bb' = concat (filter emitted ls) \<and> stream r' = rest"
      using ParseHeaderFieldsLoop_returns [OF assms(1,2,3,4) _ assms(6,8,9) t(1), of bb1 h1]
        assms(5) t(3) by simp
    with u show ?thesis by simp
  qed
qed


text \<open>
  C5 (amended). Let the bytes the reader has to deliver begin with a complete header block
  \<open>ls\<close> (terminated lines, the last one empty and no other) that has at least one line
  before the empty line, and let no line of it begin with \<^verbatim>\<open>Connection\<close>,
  \<^verbatim>\<open>Accept-Encoding\<close>, \<^verbatim>\<open>Proxy-Connection\<close>, \<^verbatim>\<open>Proxy-Authenticate\<close> or
  \<^verbatim>\<open>Proxy-Authorization\<close>; nothing is asked of its framing lines. Let the block be no
  longer than the buffer of the \<^verbatim>\<open>bufio.Reader\<close> and than the capacity of the target
  buffer, let the reader have no pending error and no more bytes buffered than its buffer
  holds, and let every read that the connection answers deliver at least one byte. Then
  \<^verbatim>\<open>ParseHeaderFields\<close> returns, it returns nil, the target buffer holds exactly the bytes
  of the block, line terminators and empty line included, whatever it held before, and
  the reader stands right after the block.
\<close>

theorem C5_round_trip:
  assumes "stream reader = concat ls @ rest" and "blockLines ls" and "length ls > 1"
    and "\<forall>l \<in> set ls. \<not> isConnectionHeader l \<and> \<not> isProxyHeader l"
    and "length (concat ls) \<le> bufSize reader" and "length (concat ls) \<le> capacity buffer"
    and "length (bufd reader) \<le> bufSize reader" and "err reader = None"
    and "[] \<notin> set (rd reader)"
  shows "\<exists>header' reader' buffer'.
           ParseHeaderFields header reader buffer = Some (header', reader', buffer', Ok) \<and>
           B buffer' = concat ls \<and> stream reader' = rest"
proof -
  have nc: "\<forall>l \<in> set ls. \<not> isConnectionHeader l" using assms(4) by simp
  have "\<forall>l \<in> set ls. emitted l" using assms(4) by (simp add: emitted_def)
  then have "filter emitted ls = ls" by (rule filter_emitted_all)
  with ParseHeaderFields_returns [OF assms(1,2,3) nc assms(6,5,7,8,9), of header]
  show ?thesis by simp
qed

text \<open>The theorem at the block \<^verbatim>\<open>Host: a\<close>, empty line, followed by a body, read in two
  pieces into a buffer that holds bytes of an earlier use.\<close>

theorem C5_witness:
  "\<exists>header' reader' buffer'.
     ParseHeaderFields \<lparr>isConnectionClose = False, contentLength = 0\<rparr>
       \<lparr>bufd = [], bufSize = 4096, err = None,
        rd = [''Host: a'' @ [CR], [LF] @ [CR, LF] @ ''body''], rdErr = EOF\<rparr>
       \<lparr>B = ''old'', capacity = 100\<rparr>
     = Some (header', reader', buffer', Ok) \<and>
     B buffer' = concat [''Host: a'' @ [CR, LF], [CR, LF]] \<and> stream reader' = ''body''"
proof -
  have s: "stream \<lparr>bufd = [], bufSize = 4096, err = None,
      rd = [''Host: a'' @ [CR], [LF] @ [CR, LF] @ ''body''], rdErr = EOF\<rparr>
    = concat [''Host: a'' @ [CR, LF], [CR, LF]] @ ''body''"
    by code_simp
  have b: "blockLines [''Host: a'' @ [CR, LF], [CR, LF]]"
    by code_simp
  have n: "length [''Host: a'' @ [CR, LF], [CR, LF]] > 1"
    by simp
  have e: "\<forall>l \<in> set [''Host: a'' @ [CR, LF], [CR, LF]]. \<not> isConnectionHeader l \<and> \<not> isProxyHeader l"
    by (simp add: isConnectionHeader_def isProxyHeader_def proxyHeaders_def HasPrefix_def)
  have l1: "length (concat [''Host: a'' @ [CR, LF], [CR, LF]])
      \<le> bufSize \<lparr>bufd = [], bufSize = 4096, err = None,
          rd = [''Host: a'' @ [CR], [LF] @ [CR, LF] @ ''body''], rdErr = EOF\<rparr>"
    by simp
  have l2: "length (concat [''Host: a'' @ [CR, LF], [CR, LF]])
      \<le> capacity \<lparr>B = ''old'', capacity = 100\<rparr>"
    by simp
  have l3: "length (bufd \<lparr>bufd = [], bufSize = 4096, err = None,
          rd = [''Host: a'' @ [CR], [LF] @ [CR, LF] @ ''body''], rdErr = EOF\<rparr>)
      \<le> bufSize \<lparr>bufd = [], bufSize = 4096, err = None,
          rd = [''Host: a'' @ [CR], [LF] @ [CR, LF] @ ''body''], rdErr = EOF\<rparr>"
    by simp
  have l4: "err \<lparr>bufd = [], bufSize = 4096, err = None,
          rd = [''Host: a'' @ [CR], [LF] @ [CR, LF] @ ''body''], rdErr = EOF\<rparr> = None"
    by simp
  have l5: "[] \<notin> set (rd \<lparr>bufd = [], bufSize = 4096, err = None,
          rd = [''Host: a'' @ [CR], [LF] @ [CR, LF] @ ''body''], rdErr = EOF\<rparr>)"
    by simp
  from C5_round_trip [OF s b n e l1 l2 l3 l4 l5] show ?thesis .
qed

text \<open>
  C5 as stated fails for the block that is only the empty line: \<^verbatim>\<open>readHeaders\<close> returns
  at once (\<^verbatim>\<open>// empty headers\<close>), the two bytes are consumed and nothing is written to
  the target buffer. It fails as well for a block that is longer than the capacity of the
  target buffer: the call returns the short-buffer error and the buffer is empty.
\<close>

theorem C5_counterexample:
  "blockLines [[CR, LF]] \<and>
   \<not> isConnectionHeader [CR, LF] \<and> \<not> isProxyHeader [CR, LF] \<and>
   stream \<lparr>bufd = [], bufSize = 4096, err = None, rd = [[CR, LF] @ ''body''], rdErr = EOF\<rparr>
     = concat [[CR, LF]] @ ''body'' \<and>
   ParseHeaderFields \<lparr>isConnectionClose = False, contentLength = 0\<rparr>
     \<lparr>bufd = [], bufSize = 4096, err = None, rd = [[CR, LF] @ ''body''], rdErr = EOF\<rparr>
     \<lparr>B = [], capacity = 100\<rparr>
   = Some (\<lparr>isConnectionClose = False, contentLength = 0\<rparr>,
       \<lparr>bufd = ''body'', bufSize = 4096, err = None, rd = [], rdErr = EOF\<rparr>,
       \<lparr>B = [], capacity = 100\<rparr>, Ok) \<and>
   B \<lparr>B = [], capacity = 100 :: nat\<rparr> \<noteq> concat [[CR, LF]] \<and>
   blockLines [''Host: a'' @ [CR, LF], [CR, LF]] \<and>
   \<not> isConnectionHeader (''Host: a'' @ [CR, LF]) \<and> \<not> isProxyHeader (''Host: a'' @ [CR, LF]) \<and>
   stream \<lparr>bufd = [], bufSize = 4096, err = None,
       rd = [''Host: a'' @ [CR, LF] @ [CR, LF]], rdErr = EOF\<rparr>
     = concat [''Host: a'' @ [CR, LF], [CR, LF]] @ [] \<and>
   ParseHeaderFields \<lparr>isConnectionClose = False, contentLength = 0\<rparr>
     \<lparr>bufd = [], bufSize = 4096, err = None,
      rd = [''Host: a'' @ [CR, LF] @ [CR, LF]], rdErr = EOF\<rparr>
     \<lparr>B = [], capacity = 10\<rparr>
   = Some (\<lparr>isConnectionClose = False, contentLength = 0\<rparr>,
       \<lparr>bufd = ''Host: a'' @ [CR, LF] @ [CR, LF], bufSize = 4096, err = None, rd = [],
        rdErr = EOF\<rparr>,
       \<lparr>B = [], capacity = 10\<rparr>, Failed (errWrapper (Some ErrShortBuffer))) \<and>
   B \<lparr>B = [], capacity = 10 :: nat\<rparr> \<noteq> concat [''Host: a'' @ [CR, LF], [CR, LF]]"
  by code_simp

section \<open>The lines \<^verbatim>\<open>ParseHeaderFields\<close> strips\<close>





text \<open>
  Outside the two cases of the amended claim the parser does not strip the \<^verbatim>\<open>Connection\<close>
  line. When the line arrives in one read and the rest of the block in a later one, the
  first attempt lowercases the line in the reader's buffer, and the second attempt, which
  parses the buffer from its start, no longer takes it for a \<^verbatim>\<open>Connection\<close> line: it is
  written to the target buffer in lower case, against the comment above
  \<^verbatim>\<open>parseThenWriteBuffer\<close> (a proxy must not pass the header on).
\<close>

lemma Connection_line_emitted_in_lower_case:
  "ParseHeaderFields \<lparr>isConnectionClose = False, contentLength = 0\<rparr>
     \<lparr>bufd = [], bufSize = 4096, err = None,
      rd = [''Connection: Close'' @ [CR, LF], [CR, LF]], rdErr = EOF\<rparr>
     \<lparr>B = [], capacity = 100\<rparr>
   = Some (\<lparr>isConnectionClose = True, contentLength = 0\<rparr>,
       \<lparr>bufd = [], bufSize = 4096, err = None, rd = [], rdErr = EOF\<rparr>,
       \<lparr>B = ''connection: close'' @ [CR, LF] @ [CR, LF], capacity = 100\<rparr>, Ok)"
  by code_simp


section \<open>A call of \<^verbatim>\<open>ParseHeaderFields\<close> that does not return\<close>

text \<open>A client that sends one header line and closes the connection.\<close>

definition closedMidHeader :: Reader where
  "closedMidHeader = \<lparr>bufd = [], bufSize = 4096, err = None, rd = [''X: y'' @ [CR, LF]], rdErr = EOF\<rparr>"

lemma closedMidHeader_loop:
  "ParseHeaderFieldsLoop h r bb n = Some y \<Longrightarrow>
     \<not> (h = \<lparr>isConnectionClose = False, contentLength = 0\<rparr> \<and>
        r = closedMidHeader\<lparr>bufd := ''X: y'' @ [CR, LF], rd := []\<rparr> \<and>
        bb = \<lparr>B = [], capacity = 100\<rparr> \<and> n = 7)"
proof (induction rule: ParseHeaderFieldsLoop.raw_induct [rotated 1, consumes 1, case_names step])
  case (step f h r bb n y)
  have again: "tryRead \<lparr>isConnectionClose = False, contentLength = 0\<rparr>
      (closedMidHeader\<lparr>bufd := ''X: y'' @ [CR, LF], rd := []\<rparr>) \<lparr>B = [], capacity = 100\<rparr> 7
    = (\<lparr>isConnectionClose = False, contentLength = 0\<rparr>,
       closedMidHeader\<lparr>bufd := ''X: y'' @ [CR, LF], rd := []\<rparr>, \<lparr>B = [], capacity = 100\<rparr>,
       Failed errNeedMore)"
    by code_simp
  have b: "Buffered (closedMidHeader\<lparr>bufd := ''X: y'' @ [CR, LF], rd := []\<rparr>) + 1 = 7"
    by code_simp
  show ?case
  proof
    assume a: "h = \<lparr>isConnectionClose = False, contentLength = 0\<rparr> \<and>
        r = closedMidHeader\<lparr>bufd := ''X: y'' @ [CR, LF], rd := []\<rparr> \<and>
        bb = \<lparr>B = [], capacity = 100\<rparr> \<and> n = 7"
    with step(2) again b
    have "f \<lparr>isConnectionClose = False, contentLength = 0\<rparr>
        (closedMidHeader\<lparr>bufd := ''X: y'' @ [CR, LF], rd := []\<rparr>) \<lparr>B = [], capacity = 100\<rparr> 7 = Some y"
      by simp
    from step(1) [OF this] show False by simp
  qed
qed

text \<open>
  C2 (the code fails it). The claim is that \<^verbatim>\<open>ParseHeaderFields\<close> either consumes the
  header block or returns an error. On the reader above it does neither: the first
  attempt buffers the line and asks for more; every later \<^verbatim>\<open>Peek\<close> returns the six
  buffered bytes together with \<^verbatim>\<open>io.EOF\<close>, \<^verbatim>\<open>tryRead\<close> looks at the error only when no
  byte came back, \<^verbatim>\<open>readHeaders\<close> asks for more again, and the loop goes on with the
  same state. Where the call does return, it keeps to the claim: that is
  \<open>ParseHeaderFieldsLoop_frame\<close> above.
\<close>

theorem C2_never_returns:
  "ParseHeaderFields \<lparr>isConnectionClose = False, contentLength = 0\<rparr> closedMidHeader
     \<lparr>B = [], capacity = 100\<rparr> = None"
proof -
  have first: "tryRead \<lparr>isConnectionClose = False, contentLength = 0\<rparr> closedMidHeader
      \<lparr>B = [], capacity = 100\<rparr> 1
    = (\<lparr>isConnectionClose = False, contentLength = 0\<rparr>,
       closedMidHeader\<lparr>bufd := ''X: y'' @ [CR, LF], rd := []\<rparr>, \<lparr>B = [], capacity = 100\<rparr>,
       Failed errNeedMore)"
    by code_simp
  have b: "Buffered (closedMidHeader\<lparr>bufd := ''X: y'' @ [CR, LF], rd := []\<rparr>) + 1 = 7"
    by code_simp
  have "ParseHeaderFields \<lparr>isConnectionClose = False, contentLength = 0\<rparr> closedMidHeader
      \<lparr>B = [], capacity = 100\<rparr>
    = ParseHeaderFieldsLoop \<lparr>isConnectionClose = False, contentLength = 0\<rparr>
        (closedMidHeader\<lparr>bufd := ''X: y'' @ [CR, LF], rd := []\<rparr>) \<lparr>B = [], capacity = 100\<rparr> 7"
    unfolding ParseHeaderFields_def
    by (subst ParseHeaderFieldsLoop.simps) (simp only: first b prod.case simp_thms if_True)
  moreover have "ParseHeaderFieldsLoop \<lparr>isConnectionClose = False, contentLength = 0\<rparr>
        (closedMidHeader\<lparr>bufd := ''X: y'' @ [CR, LF], rd := []\<rparr>) \<lparr>B = [], capacity = 100\<rparr> 7 = None"
  proof (rule ccontr)
    assume "ParseHeaderFieldsLoop \<lparr>isConnectionClose = False, contentLength = 0\<rparr>
        (closedMidHeader\<lparr>bufd := ''X: y'' @ [CR, LF], rd := []\<rparr>) \<lparr>B = [], capacity = 100\<rparr> 7 \<noteq> None"
    then obtain y where "ParseHeaderFieldsLoop \<lparr>isConnectionClose = False, contentLength = 0\<rparr>
        (closedMidHeader\<lparr>bufd := ''X: y'' @ [CR, LF], rd := []\<rparr>) \<lparr>B = [], capacity = 100\<rparr> 7 = Some y"
      by blast
    from closedMidHeader_loop [OF this] show False by simp
  qed
  ultimately show ?thesis by simp
qed

section \<open>The sessions of the proxy handler\<close>

text \<open>
  \<^verbatim>\<open>Handler.tunnelConnect\<close>, \<^verbatim>\<open>Handler.do\<close> and \<^verbatim>\<open>Handler.decryptConnect\<close> act on
  connections, pools and counters. A session is modelled by what it returns and by the
  list of the effects it has, in the order the code performs them. What the effects
  answer (whether a dial succeeds, what the client's TLS hello holds) and the callbacks
  and helpers of other packages are fields of an environment.
\<close>

type_synonym SuperProxy = string

record HostInfo =
  hostWithPort :: string
  domain :: string

datatype session_error =
    ErrSessionUnavailable
  | errNoServerName
  | Refused string
  | ErrWrapper session_error string

text \<open>\<open>errNoServerName\<close> is \<^verbatim>\<open>errors.New("client didn't provide a target server name")\<close>,
  \<open>Refused\<close> an error that a collaborator returns, \<open>ErrWrapper\<close> is \<^verbatim>\<open>util.ErrWrapper\<close>.\<close>

record Request =
  reqHostInfo :: HostInfo
  reqMethod :: bytes
  reqPath :: bytes

datatype direction = ToOrigin | ToClient

datatype event =
    LookupIP string
  | AcquireToken SuperProxy
  | PushBackToken SuperProxy
  | Dial string
  | MakeTunnel SuperProxy string
  | WriteClient bytes
  | Forward direction
  | CloseTunnelConn
  | UsageAddIncoming int
  | UsageAddOutgoing int
  | SuperUsageAddIncoming SuperProxy int
  | SuperUsageAddOutgoing SuperProxy int
  | TLSHandshake
  | CloseFakeServerConn
  | ReadRequest
  | AcquireWriter
  | ReleaseWriter
  | Flush
  | AcquireResponse
  | ReleaseResponse
  | HijackerGet
  | HijackerPut
  | HijackClientDo
  | ClientDo
  | ClientUsageAddIncoming int
  | ClientUsageAddOutgoing int

text \<open>
  The effects are: a call of the \<^verbatim>\<open>LookupIP\<close> callback; taking and returning the token of
  an upstream proxy; \<^verbatim>\<open>transport.Dial\<close> and \<^verbatim>\<open>superProxy.MakeTunnel\<close>; a write of the given
  bytes to the client connection (\<^verbatim>\<open>util.WriteWithValidation\<close>); \<^verbatim>\<open>transport.Forward\<close> in
  one direction; closing connections; the additions to the usage counters;
  the TLS handshake with the client; \<^verbatim>\<open>req.ReadFrom\<close>; the buffered writer on the client
  connection and its \<^verbatim>\<open>Flush\<close>, which sends what \<^verbatim>\<open>hijackClient.Do\<close> or \<^verbatim>\<open>client.Do\<close> wrote
  into it; the pools of responses and of hijackers; \<^verbatim>\<open>hijackClient.Do\<close>, which writes the hijacker's response;
  and \<^verbatim>\<open>client.Do\<close>, which connects to the origin, sends the request and writes the
  response.
\<close>

record Env =
  ParseHostWithPort :: "string \<Rightarrow> HostInfo"
  URLProxy :: "HostInfo \<Rightarrow> bytes option \<Rightarrow> SuperProxy option"
  LookupIPSet :: bool
  LookupIPResult :: "string \<Rightarrow> string option"
  SplitHostPort :: "string \<Rightarrow> session_error + string \<times> string"
  IsIP :: "string \<Rightarrow> bool"
  dialResult :: "string \<Rightarrow> session_error option"
  makeTunnelResult :: "SuperProxy \<Rightarrow> string \<Rightarrow> session_error option"
  writeClientResult :: "bytes \<Rightarrow> session_error option"
  forwardToOrigin :: "int \<times> session_error option"
  forwardToClient :: "int \<times> session_error option"
  usageSet :: bool
  ShouldDecryptHost :: "string \<Rightarrow> bool"
  genCertResult :: "string list \<Rightarrow> session_error option"
  clientHelloServerName :: "string option"
  tlsHandshakeResult :: "session_error option"
  readFromResult :: "int \<times> session_error option \<times> Request"
  respWriteToResult :: "session_error option"
  hijackResponse :: "Request \<Rightarrow> bool"
  hijackClientDoResult :: "int \<times> int \<times> session_error option"
  clientDoResult :: "int \<times> int \<times> int \<times> session_error option"

text \<open>
  Of the environment: \<open>ParseHostWithPort\<close> is \<^verbatim>\<open>HostInfo.ParseHostWithPort\<close> (package
  \<^verbatim>\<open>proxy/http\<close>, not among the sources) as a function of the text; \<open>URLProxy\<close> is the
  callback of the handler, taken not to change the host info it is given; \<open>LookupIPSet\<close>
  says whether \<^verbatim>\<open>h.LookupIP\<close> is set; \<open>SplitHostPort\<close> and \<open>IsIP\<close> are
  \<^verbatim>\<open>net.SplitHostPort\<close> and \<^verbatim>\<open>net.ParseIP(host) != nil\<close>; \<open>usageSet\<close> says whether the
  \<^verbatim>\<open>usage\<close> argument is not nil; \<open>clientHelloServerName\<close> is the server name of the
  client's TLS hello, \<open>None\<close> when the handshake does not get to call \<^verbatim>\<open>GetCertificate\<close>
  (Go calls it only when the client sends a server name or no certificate is configured);
  \<open>hijackResponse\<close> says whether \<^verbatim>\<open>hijacker.HijackResponse()\<close> is not nil. The other
  fields are the results of the calls they are named after.
\<close>

definition httpTunnelMadeOk :: bytes where
  "httpTunnelMadeOk = ''HTTP/1.1 200 OK'' @ [CR, LF, CR, LF]"

definition httpTunnelMadeError :: bytes where
  "httpTunnelMadeError = ''HTTP/1.1 501 Bad Gateway'' @ [CR, LF, CR, LF]"

text \<open>
  The sizes and counters are \<^verbatim>\<open>uint64\<close>, the counts that \<^verbatim>\<open>Forward\<close>, \<^verbatim>\<open>ReadFrom\<close> and the
  clients return are \<^verbatim>\<open>int64\<close> or \<^verbatim>\<open>int\<close>: integers here, with the conversion
  \<^verbatim>\<open>uint64(x)\<close> and the wrap-around of \<^verbatim>\<open>+=\<close> written out.
\<close>

definition uint64 :: "int \<Rightarrow> int" where
  "uint64 x = x mod 2 ^ 64"

definition add64 :: "int \<Rightarrow> int \<Rightarrow> int" where
  "add64 a b = (a + b) mod 2 ^ 64"

definition httpTunnelMadeOkSize :: int where
  "httpTunnelMadeOkSize = uint64 (int (length httpTunnelMadeOk))"

definition httpTunnelMadeErrorSize :: int where
  "httpTunnelMadeErrorSize = uint64 (int (length httpTunnelMadeError))"

text \<open>\<^verbatim>\<open>sendHTTPSProxyStatusOK\<close> and \<^verbatim>\<open>sendHTTPSProxyStatusBadGateway\<close>: the error and the
  effect.\<close>

definition sendHTTPSProxyStatusOK :: "Env \<Rightarrow> session_error option \<times> event list" where
  "sendHTTPSProxyStatusOK env = (writeClientResult env httpTunnelMadeOk, [WriteClient httpTunnelMadeOk])"

definition sendHTTPSProxyStatusBadGateway :: "Env \<Rightarrow> session_error option \<times> event list" where
  "sendHTTPSProxyStatusBadGateway env =
     (writeClientResult env httpTunnelMadeError, [WriteClient httpTunnelMadeError])"

text \<open>\<^verbatim>\<open>h.lookupIP\<close>: nil when the callback is not set.\<close>

definition lookupIP :: "Env \<Rightarrow> string \<Rightarrow> string option \<times> event list" where
  "lookupIP env name =
     (if \<not> LookupIPSet env then (None, []) else (LookupIPResult env name, [LookupIP name]))"

text \<open>
  The parts of \<^verbatim>\<open>tunnelConnect\<close>. \<open>tunnelTarget\<close> is the block under
  \<^verbatim>\<open>if superProxy != nil\<close> that resolves the target and takes the token; \<open>openTunnelConn\<close>
  is the choice between \<^verbatim>\<open>MakeTunnel\<close> and \<^verbatim>\<open>Dial\<close>; \<open>tunnelUsage\<close> is the deferred
  function that adds the four sizes to the counters, and \<open>tunnelRelease\<close> the deferred
  \<^verbatim>\<open>PushBackToken\<close>.
\<close>

definition tunnelTarget :: "Env \<Rightarrow> SuperProxy option \<Rightarrow> string \<Rightarrow> string \<times> event list" where
  "tunnelTarget env superProxy hostWithPort' =
     (case superProxy of
        None \<Rightarrow> (hostWithPort', [])
      | Some sp \<Rightarrow>
          (let (host, port) = (case SplitHostPort env hostWithPort' of
                                Inl e \<Rightarrow> ([], []) | Inr hp \<Rightarrow> hp)
           in if length host > 0 \<and> \<not> IsIP env host then
                (case lookupIP env host of
                   (Some ip, evs) \<Rightarrow> (ip @ '':'' @ port, evs @ [AcquireToken sp])
                 | (None, evs) \<Rightarrow> (hostWithPort', evs @ [AcquireToken sp]))
              else (hostWithPort', [AcquireToken sp])))"

definition openTunnelConn ::
  "Env \<Rightarrow> SuperProxy option \<Rightarrow> string \<Rightarrow> string \<Rightarrow> session_error option \<times> event list" where
  "openTunnelConn env superProxy hostWithPort' targetWithPort =
     (case superProxy of
        Some sp \<Rightarrow> (makeTunnelResult env sp targetWithPort, [MakeTunnel sp targetWithPort])
      | None \<Rightarrow> (dialResult env hostWithPort', [Dial hostWithPort']))"

definition tunnelUsage ::
  "Env \<Rightarrow> SuperProxy option \<Rightarrow> int \<Rightarrow> int \<Rightarrow> int \<Rightarrow> int \<Rightarrow> event list" where
  "tunnelUsage env superProxy proxyIncomingSize proxyOutgoingSize superProxyIncomingSize
       superProxyOutgoingSize =
     (if usageSet env
      then [UsageAddIncoming proxyIncomingSize, UsageAddOutgoing proxyOutgoingSize] else []) @
     (case superProxy of
        Some sp \<Rightarrow> [SuperUsageAddOutgoing sp superProxyOutgoingSize,
                    SuperUsageAddIncoming sp superProxyIncomingSize]
      | None \<Rightarrow> [])"

definition tunnelRelease :: "SuperProxy option \<Rightarrow> event list" where
  "tunnelRelease superProxy = (case superProxy of Some sp \<Rightarrow> [PushBackToken sp] | None \<Rightarrow> [])"

text \<open>
  \<^verbatim>\<open>tunnelConnect\<close>. The two \<^verbatim>\<open>Forward\<close> calls run concurrently; the list has them in the
  order the code starts them. The deferred calls come last, in the reverse of the order
  of their \<^verbatim>\<open>defer\<close> statements; the goroutine of the usage counters is put where it is
  started.
\<close>

definition tunnelConnect :: "Env \<Rightarrow> string \<Rightarrow> session_error option \<times> event list" where
  "tunnelConnect env hostWithPort0 =
     (let hostInfo = ParseHostWithPort env hostWithPort0;
          superProxy = URLProxy env hostInfo None
      in if length (hostWithPort hostInfo) = 0 then (Some ErrSessionUnavailable, [])
         else
           (let hostWithPort' = hostWithPort hostInfo;
                (targetWithPort, evTarget) = tunnelTarget env superProxy hostWithPort';
                (er, evOpen) = openTunnelConn env superProxy hostWithPort' targetWithPort
            in case er of
                 Some e \<Rightarrow>
                   (Some (ErrWrapper e (''error occurred when dialing to host '' @ hostWithPort')),
                    evTarget @ evOpen @ snd (sendHTTPSProxyStatusBadGateway env) @
                    tunnelUsage env superProxy 0 (add64 0 httpTunnelMadeErrorSize) 0 0 @
                    tunnelRelease superProxy)
               | None \<Rightarrow>
                   (case sendHTTPSProxyStatusOK env of
                      (Some e, evOk) \<Rightarrow>
                        (Some (ErrWrapper e ''error occurred when handshaking with client''),
                         evTarget @ evOpen @ evOk @ [CloseTunnelConn] @
                         tunnelUsage env superProxy 0 0 0 0 @ tunnelRelease superProxy)
                    | (None, evOk) \<Rightarrow>
                        (let (superProxyOutgoingTrafficSize, superProxyWriteErr) = forwardToOrigin env;
                             (superProxyIncomingTrafficSize, superProxyReadErr) = forwardToClient env;
                             evs = evTarget @ evOpen @ evOk @ [Forward ToOrigin, Forward ToClient] @
                               [CloseTunnelConn] @
                               tunnelUsage env superProxy
                                 (add64 0 (uint64 superProxyOutgoingTrafficSize))
                                 (add64 (add64 0 httpTunnelMadeOkSize)
                                    (uint64 superProxyIncomingTrafficSize))
                                 (add64 0 (uint64 superProxyIncomingTrafficSize))
                                 (add64 0 (uint64 superProxyOutgoingTrafficSize)) @
                               tunnelRelease superProxy
                         in case superProxyWriteErr of
                              Some e \<Rightarrow>
                                (Some (ErrWrapper e
                                   ''error occurred when tunneling client request to client''), evs)
                            | None \<Rightarrow>
                                (case superProxyReadErr of
                                   Some e \<Rightarrow>
                                     (Some (ErrWrapper e
                                        ''error occurred when tunneling client response to client''),
                                      evs)
                                 | None \<Rightarrow> (None, evs))))))"

text \<open>
  \<^verbatim>\<open>do\<close>, the exchange of one plain HTTP request (\<^verbatim>\<open>handleHTTPConns\<close> only calls it). The
  deferred calls run last: \<^verbatim>\<open>PushBackToken\<close> when a token was taken, then
  \<^verbatim>\<open>HijackerPool.Put\<close>, the release of the response, \<^verbatim>\<open>writer.Flush\<close> and
  \<^verbatim>\<open>ReleaseWriter\<close>.
\<close>

definition do :: "Env \<Rightarrow> Request \<Rightarrow> session_error option \<times> event list" where
  "do env req =
     (case respWriteToResult env of
        Some e \<Rightarrow> (Some e, [AcquireWriter, AcquireResponse, ReleaseResponse, Flush, ReleaseWriter])
      | None \<Rightarrow>
          if hijackResponse env req then
            (case hijackClientDoResult env of
               (reqReadSize, respSize, er) \<Rightarrow>
                 (er, [AcquireWriter, AcquireResponse, HijackerGet, HijackClientDo,
                        ClientUsageAddIncoming (uint64 reqReadSize),
                        ClientUsageAddOutgoing (uint64 respSize),
                        HijackerPut, ReleaseResponse, Flush, ReleaseWriter]))
          else
            (let superProxy = URLProxy env (reqHostInfo req) (Some (reqPath req))
             in if length (hostWithPort (reqHostInfo req)) = 0
                then (Some ErrSessionUnavailable,
                      [AcquireWriter, AcquireResponse, HijackerGet, HijackerPut, ReleaseResponse,
                       Flush, ReleaseWriter])
                else
                  (let evProxy =
                         (case superProxy of
                            None \<Rightarrow> []
                          | Some sp \<Rightarrow>
                              (if length (domain (reqHostInfo req)) > 0
                               then snd (lookupIP env (domain (reqHostInfo req))) else []) @
                              [AcquireToken sp])
                   in case clientDoResult env of
                        (reqReadNum, reqWriteNum, respNum, er) \<Rightarrow>
                          (er, [AcquireWriter, AcquireResponse, HijackerGet] @ evProxy @ [ClientDo,
                                 ClientUsageAddIncoming (uint64 reqReadNum),
                                 ClientUsageAddOutgoing (uint64 respNum)] @
                                (case superProxy of
                                   None \<Rightarrow> []
                                 | Some sp \<Rightarrow> [SuperUsageAddIncoming sp (uint64 respNum),
                                              SuperUsageAddOutgoing sp (uint64 reqWriteNum)]) @
                                tunnelRelease superProxy @
                                [HijackerPut, ReleaseResponse, Flush, ReleaseWriter]))))"

text \<open>\<^verbatim>\<open>signFakeCert\<close>: the error, if any.\<close>

definition signFakeCert :: "Env \<Rightarrow> string \<Rightarrow> session_error option" where
  "signFakeCert env host =
     (case SplitHostPort env host of
        Inl e \<Rightarrow> Some e
      | Inr (name, port) \<Rightarrow> genCertResult env [name])"

text \<open>
  The closure \<^verbatim>\<open>handShake\<close> of \<^verbatim>\<open>decryptConnect\<close>: its error, the value of
  \<^verbatim>\<open>targetServerName\<close> afterwards (the callback \<^verbatim>\<open>GetCertificate\<close> assigns it during the
  TLS handshake) and the effects.
\<close>

definition handShake :: "Env \<Rightarrow> session_error option \<times> string \<times> event list" where
  "handShake env =
     (case sendHTTPSProxyStatusOK env of
        (Some e, evOk) \<Rightarrow> (Some (ErrWrapper e ''proxy fails to handshake with client''), [], evOk)
      | (None, evOk) \<Rightarrow>
          (let evUsage = (if usageSet env then [UsageAddOutgoing httpTunnelMadeOkSize] else []);
               targetServerName = (case clientHelloServerName env of None \<Rightarrow> [] | Some n \<Rightarrow> n)
           in case tlsHandshakeResult env of
                Some e \<Rightarrow>
                  (Some (ErrWrapper e ''fake tls server fails to handshake with client''),
                   targetServerName, evOk @ evUsage @ [TLSHandshake, CloseFakeServerConn])
              | None \<Rightarrow> (None, targetServerName, evOk @ evUsage @ [TLSHandshake])))"

text \<open>\<^verbatim>\<open>decryptConnect\<close>. \<^verbatim>\<open>req.SetHostWithPort\<close> is taken to parse its argument into the
  host info of the request.\<close>

definition decryptConnect :: "Env \<Rightarrow> string \<Rightarrow> session_error option \<times> event list" where
  "decryptConnect env hostWithPort0 =
     (case signFakeCert env hostWithPort0 of
        Some e \<Rightarrow>
          (Some (ErrWrapper e ''fail to sign fake certificate for client''),
           snd (sendHTTPSProxyStatusBadGateway env) @
           (if usageSet env then [UsageAddOutgoing httpTunnelMadeErrorSize] else []))
      | None \<Rightarrow>
          (case handShake env of
             (err0, targetServerName, evHandShake) \<Rightarrow>
               (let er = (if length targetServerName = 0 then Some errNoServerName else err0)
                in case er of
                     Some e \<Rightarrow> (Some e, evHandShake)
                   | None \<Rightarrow>
                       (case readFromResult env of
                          (rn, Some e, req) \<Rightarrow>
                            (Some (ErrWrapper e ''fail to read fake tls server request header''),
                             evHandShake @ [ReadRequest, CloseFakeServerConn])
                        | (rn, None, req) \<Rightarrow>
                            (let req' = req\<lparr>reqHostInfo := ParseHostWithPort env hostWithPort0\<rparr>;
                                 (res, evDo) = do env req'
                             in (res, evHandShake @ [ReadRequest] @
                                      (if usageSet env then [UsageAddIncoming (uint64 rn)] else []) @
                                      evDo @ [CloseFakeServerConn]))))))"

text \<open>\<^verbatim>\<open>handleHTTPSConns\<close>: the choice between the two ways to serve \<^verbatim>\<open>CONNECT\<close>.\<close>

definition handleHTTPSConns :: "Env \<Rightarrow> string \<Rightarrow> session_error option \<times> event list" where
  "handleHTTPSConns env hostWithPort0 =
     (if ShouldDecryptHost env hostWithPort0 then decryptConnect env hostWithPort0
      else tunnelConnect env hostWithPort0)"

definition handleHTTPConns :: "Env \<Rightarrow> Request \<Rightarrow> session_error option \<times> event list" where
  "handleHTTPConns env req = do env req"

text \<open>What a list of effects holds.\<close>

fun clientWrites :: "event list \<Rightarrow> bytes list" where
  "clientWrites [] = []"
| "clientWrites (WriteClient p # evs) = p # clientWrites evs"
| "clientWrites (ev # evs) = clientWrites evs"

fun usageOutgoing :: "event list \<Rightarrow> int list" where
  "usageOutgoing [] = []"
| "usageOutgoing (UsageAddOutgoing n # evs) = n # usageOutgoing evs"
| "usageOutgoing (ev # evs) = usageOutgoing evs"

fun isForward :: "event \<Rightarrow> bool" where
  "isForward (Forward d) = True"
| "isForward ev = False"

text \<open>
  An effect that opens a connection to the origin or to the upstream proxy; one that
  takes a token; one that sends bytes to the client. \<open>Flush\<close> is not among the last: it
  sends what \<^verbatim>\<open>hijackClient.Do\<close> or \<^verbatim>\<open>client.Do\<close> wrote into the buffered writer, and
  \<^verbatim>\<open>resp.WriteTo(writer)\<close> (package \<^verbatim>\<open>proxy/http\<close>, not among the sources) is taken to
  attach the writer to the response without writing to it.
\<close>

fun dialsOrigin :: "event \<Rightarrow> bool" where
  "dialsOrigin (Dial a) = True"
| "dialsOrigin (MakeTunnel sp a) = True"
| "dialsOrigin ClientDo = True"
| "dialsOrigin ev = False"

fun takesToken :: "event \<Rightarrow> bool" where
  "takesToken (AcquireToken sp) = True"
| "takesToken ev = False"

fun writesToClient :: "event \<Rightarrow> bool" where
  "writesToClient (WriteClient p) = True"
| "writesToClient (Forward ToClient) = True"
| "writesToClient HijackClientDo = True"
| "writesToClient ClientDo = True"
| "writesToClient ev = False"

text \<open>An environment for the examples: no upstream proxy, every call succeeds, the client
  names \<open>a.test\<close> in its TLS hello, the hijacker has no response of its own.\<close>

definition plainEnv :: Env where
  "plainEnv = \<lparr>
     ParseHostWithPort = (\<lambda>s. \<lparr>hostWithPort = s, domain = takeWhile (\<lambda>c. c \<noteq> CHR '':'') s\<rparr>),
     URLProxy = (\<lambda>hi path. None),
     LookupIPSet = False,
     LookupIPResult = (\<lambda>d. None),
     SplitHostPort = (\<lambda>s. Inr (takeWhile (\<lambda>c. c \<noteq> CHR '':'') s, tl (dropWhile (\<lambda>c. c \<noteq> CHR '':'') s))),
     IsIP = (\<lambda>s. False),
     dialResult = (\<lambda>a. None),
     makeTunnelResult = (\<lambda>sp a. None),
     writeClientResult = (\<lambda>p. None),
     forwardToOrigin = (10, None),
     forwardToClient = (20, None),
     usageSet = True,
     ShouldDecryptHost = (\<lambda>a. False),
     genCertResult = (\<lambda>names. None),
     clientHelloServerName = Some ''a.test'',
     tlsHandshakeResult = None,
     readFromResult = (30, None, \<lparr>reqHostInfo = \<lparr>hostWithPort = [], domain = []\<rparr>,
                                   reqMethod = ''GET'', reqPath = ''/''\<rparr>),
     respWriteToResult = None,
     hijackResponse = (\<lambda>req. False),
     hijackClientDoResult = (0, 0, None),
     clientDoResult = (30, 30, 40, None)\<rparr>"

section \<open>The replies of the tunnel, the empty host and the missing server name\<close>

lemma clientWrites_append: "clientWrites (xs @ ys) = clientWrites xs @ clientWrites ys"
  by (induction xs rule: clientWrites.induct) simp_all

lemma usageOutgoing_append: "usageOutgoing (xs @ ys) = usageOutgoing xs @ usageOutgoing ys"
  by (induction xs rule: usageOutgoing.induct) simp_all

lemma tunnelTarget_quiet:
  "clientWrites (snd (tunnelTarget env superProxy a)) = [] \<and>
   usageOutgoing (snd (tunnelTarget env superProxy a)) = [] \<and>
   \<not> list_ex isForward (snd (tunnelTarget env superProxy a))"
  by (auto simp: tunnelTarget_def lookupIP_def Let_def clientWrites_append usageOutgoing_append
      split: option.splits sum.splits prod.splits)

lemma openTunnelConn_quiet:
  "clientWrites (snd (openTunnelConn env superProxy a t)) = [] \<and>
   usageOutgoing (snd (openTunnelConn env superProxy a t)) = [] \<and>
   \<not> list_ex isForward (snd (openTunnelConn env superProxy a t))"
  by (auto simp: openTunnelConn_def split: option.splits)

lemma tunnelUsage_quiet:
  "clientWrites (tunnelUsage env superProxy a b c d) = [] \<and>
   usageOutgoing (tunnelUsage env superProxy a b c d) = (if usageSet env then [b] else []) \<and>
   \<not> list_ex isForward (tunnelUsage env superProxy a b c d)"
  by (auto simp: tunnelUsage_def split: option.splits)

lemma tunnelRelease_quiet:
  "clientWrites (tunnelRelease superProxy) = [] \<and> usageOutgoing (tunnelRelease superProxy) = [] \<and>
   \<not> list_ex isForward (tunnelRelease superProxy)"
  by (auto simp: tunnelRelease_def split: option.splits)

lemma takeWhile_append_no:
  "\<not> list_ex P xs \<Longrightarrow> takeWhile (\<lambda>x. \<not> P x) (xs @ ys) = xs @ takeWhile (\<lambda>x. \<not> P x) ys"
  by (induction xs) auto

text \<open>
  C7. In \<^verbatim>\<open>tunnelConnect\<close>, past the check of the host, let \<open>opened\<close> be the error of
  opening the connection (\<^verbatim>\<open>transport.Dial\<close>, or \<^verbatim>\<open>MakeTunnel\<close> of the upstream proxy when
  \<^verbatim>\<open>URLProxy\<close> names one). When opening fails, the session ends with the wrapped error,
  the one write to the client is \<^verbatim>\<open>HTTP/1.1 501 Bad Gateway\<close> and an empty line, 28 bytes,
  nothing is forwarded, and the usage counter gets one addition to its outgoing size, of
  28 (none when the \<^verbatim>\<open>usage\<close> argument is nil: there is no counter then). When opening
  succeeds, the writes to the client before anything is forwarded are the one write of
  \<^verbatim>\<open>HTTP/1.1 200 OK\<close> and an empty line, and the session itself writes nothing else to the
  client.
\<close>

theorem C7_tunnel_replies:
  assumes "hostWithPort (ParseHostWithPort env h) \<noteq> []"
    and "hostInfo = ParseHostWithPort env h"
    and "superProxy = URLProxy env hostInfo None"
    and "target = fst (tunnelTarget env superProxy (hostWithPort hostInfo))"
    and "opened = fst (openTunnelConn env superProxy (hostWithPort hostInfo) target)"
  shows "(\<forall>e. opened = Some e \<longrightarrow>
            fst (tunnelConnect env h) =
              Some (ErrWrapper e (''error occurred when dialing to host '' @ hostWithPort hostInfo)) \<and>
            clientWrites (snd (tunnelConnect env h)) = [''HTTP/1.1 501 Bad Gateway'' @ [CR, LF, CR, LF]] \<and>
            length (''HTTP/1.1 501 Bad Gateway'' @ [CR, LF, CR, LF]) = 28 \<and>
            usageOutgoing (snd (tunnelConnect env h)) = (if usageSet env then [28] else []) \<and>
            \<not> list_ex isForward (snd (tunnelConnect env h))) \<and>
         (opened = None \<longrightarrow>
            clientWrites (takeWhile (\<lambda>ev. \<not> isForward ev) (snd (tunnelConnect env h)))
              = [''HTTP/1.1 200 OK'' @ [CR, LF, CR, LF]] \<and>
            clientWrites (snd (tunnelConnect env h)) = [''HTTP/1.1 200 OK'' @ [CR, LF, CR, LF]])"
proof -
  obtain evT where t: "tunnelTarget env superProxy (hostWithPort hostInfo) = (target, evT)"
    using assms(4) by (cases "tunnelTarget env superProxy (hostWithPort hostInfo)") simp
  obtain evO where o: "openTunnelConn env superProxy (hostWithPort hostInfo) target = (opened, evO)"
    using assms(5) by (cases "openTunnelConn env superProxy (hostWithPort hostInfo) target") simp
  have qT: "clientWrites evT = []" "usageOutgoing evT = []" "\<not> list_ex isForward evT"
    using tunnelTarget_quiet [of env superProxy "hostWithPort hostInfo"] t by simp_all
  have qO: "clientWrites evO = []" "usageOutgoing evO = []" "\<not> list_ex isForward evO"
    using openTunnelConn_quiet [of env superProxy "hostWithPort hostInfo" target] o by simp_all
  note qU = tunnelUsage_quiet [of env superProxy] and qR = tunnelRelease_quiet [of superProxy]
  have sz: "add64 0 httpTunnelMadeErrorSize = 28"
    by (simp add: add64_def uint64_def httpTunnelMadeErrorSize_def httpTunnelMadeError_def)
  have ne: "length (hostWithPort (ParseHostWithPort env h)) \<noteq> 0"
    using assms(1) by simp
  have failed: "fst (tunnelConnect env h) =
              Some (ErrWrapper e (''error occurred when dialing to host '' @ hostWithPort hostInfo)) \<and>
            clientWrites (snd (tunnelConnect env h)) = [''HTTP/1.1 501 Bad Gateway'' @ [CR, LF, CR, LF]] \<and>
            length (''HTTP/1.1 501 Bad Gateway'' @ [CR, LF, CR, LF]) = 28 \<and>
            usageOutgoing (snd (tunnelConnect env h)) = (if usageSet env then [28] else []) \<and>
            \<not> list_ex isForward (snd (tunnelConnect env h))"
    if e: "opened = Some e" for e
  proof -
    have tc: "tunnelConnect env h =
        (Some (ErrWrapper e (''error occurred when dialing to host '' @ hostWithPort hostInfo)),
         evT @ evO @ [WriteClient httpTunnelMadeError] @
         tunnelUsage env superProxy 0 (add64 0 httpTunnelMadeErrorSize) 0 0 @
         tunnelRelease superProxy)"
      using ne t o e assms(2,3)
      by (simp add: tunnelConnect_def Let_def sendHTTPSProxyStatusBadGateway_def)
    show ?thesis
      unfolding tc using qT qO qU qR sz
      by (simp add: clientWrites_append usageOutgoing_append httpTunnelMadeError_def)
  qed
  have opened_ok: "clientWrites (takeWhile (\<lambda>ev. \<not> isForward ev) (snd (tunnelConnect env h)))
              = [''HTTP/1.1 200 OK'' @ [CR, LF, CR, LF]] \<and>
            clientWrites (snd (tunnelConnect env h)) = [''HTTP/1.1 200 OK'' @ [CR, LF, CR, LF]]"
    if n: "opened = None"
  proof (cases "writeClientResult env httpTunnelMadeOk")
    case (Some e)
    have tc: "snd (tunnelConnect env h) =
         evT @ evO @ [WriteClient httpTunnelMadeOk] @ [CloseTunnelConn] @
         tunnelUsage env superProxy 0 0 0 0 @ tunnelRelease superProxy"
      using ne t o n Some assms(2,3)
      by (simp add: tunnelConnect_def Let_def sendHTTPSProxyStatusOK_def)
    have nf: "\<not> list_ex isForward (snd (tunnelConnect env h))"
      unfolding tc using qT qO qU qR by simp
    then have tw: "takeWhile (\<lambda>ev. \<not> isForward ev) (snd (tunnelConnect env h)) = snd (tunnelConnect env h)"
      using takeWhile_append_no [of isForward "snd (tunnelConnect env h)" "[]"] by simp
    have cw: "clientWrites (snd (tunnelConnect env h)) = [''HTTP/1.1 200 OK'' @ [CR, LF, CR, LF]]"
      unfolding tc using qT qO qU qR
      by (simp add: clientWrites_append httpTunnelMadeOk_def)
    show ?thesis unfolding tw using cw by simp
  next
    case None
    obtain a b c d where f: "forwardToOrigin env = (a, b)" "forwardToClient env = (c, d)"
      by (cases "forwardToOrigin env"; cases "forwardToClient env") auto
    define rest where "rest = [Forward ToClient] @ [CloseTunnelConn] @
         tunnelUsage env superProxy (add64 0 (uint64 a))
           (add64 (add64 0 httpTunnelMadeOkSize) (uint64 c)) (add64 0 (uint64 c))
           (add64 0 (uint64 a)) @ tunnelRelease superProxy"
    have tc: "snd (tunnelConnect env h) =
         (evT @ evO @ [WriteClient httpTunnelMadeOk]) @ Forward ToOrigin # rest"
      using ne t o n None f assms(2,3)
      by (auto simp: tunnelConnect_def Let_def sendHTTPSProxyStatusOK_def rest_def
          split: option.splits)
    have nf: "\<not> list_ex isForward (evT @ evO @ [WriteClient httpTunnelMadeOk])"
      using qT qO by simp
    have "takeWhile (\<lambda>ev. \<not> isForward ev) (snd (tunnelConnect env h))
        = evT @ evO @ [WriteClient httpTunnelMadeOk]"
      unfolding tc using takeWhile_append_no [OF nf, of "Forward ToOrigin # rest"] by simp
    moreover have "clientWrites (evT @ evO @ [WriteClient httpTunnelMadeOk])
        = [''HTTP/1.1 200 OK'' @ [CR, LF, CR, LF]]"
      using qT qO by (simp add: clientWrites_append httpTunnelMadeOk_def)
    moreover have "clientWrites (Forward ToOrigin # rest) = []"
      using qU qR by (simp add: rest_def clientWrites_append)
    ultimately show ?thesis
      unfolding tc by (simp add: clientWrites_append)
  qed
  show ?thesis using failed opened_ok by blast
qed


text \<open>The theorem at a direct tunnel to \<open>a.test:443\<close> whose dial is refused, and at one
  whose dial succeeds.\<close>

theorem C7_witness:
  "fst (tunnelConnect (plainEnv\<lparr>dialResult := (\<lambda>a. Some (Refused ''no route''))\<rparr>) ''a.test:443'')
     = Some (ErrWrapper (Refused ''no route'') ''error occurred when dialing to host a.test:443'') \<and>
   clientWrites (snd (tunnelConnect (plainEnv\<lparr>dialResult := (\<lambda>a. Some (Refused ''no route''))\<rparr>)
       ''a.test:443''))
     = [''HTTP/1.1 501 Bad Gateway'' @ [CR, LF, CR, LF]] \<and>
   usageOutgoing (snd (tunnelConnect (plainEnv\<lparr>dialResult := (\<lambda>a. Some (Refused ''no route''))\<rparr>)
       ''a.test:443''))
     = [28] \<and>
   clientWrites (takeWhile (\<lambda>ev. \<not> isForward ev) (snd (tunnelConnect plainEnv ''a.test:443'')))
     = [''HTTP/1.1 200 OK'' @ [CR, LF, CR, LF]]"
proof -
  define env where "env = plainEnv\<lparr>dialResult := (\<lambda>a. Some (Refused ''no route''))\<rparr>"
  have h: "hostWithPort (ParseHostWithPort env ''a.test:443'') \<noteq> []"
    unfolding env_def by code_simp
  have hw: "hostWithPort (ParseHostWithPort env ''a.test:443'') = ''a.test:443''"
    unfolding env_def by code_simp
  have o: "fst (openTunnelConn env (URLProxy env (ParseHostWithPort env ''a.test:443'') None)
        (hostWithPort (ParseHostWithPort env ''a.test:443''))
        (fst (tunnelTarget env (URLProxy env (ParseHostWithPort env ''a.test:443'') None)
           (hostWithPort (ParseHostWithPort env ''a.test:443'')))))
      = Some (Refused ''no route'')"
    unfolding env_def by code_simp
  have u: "usageSet env" unfolding env_def by code_simp
  have h': "hostWithPort (ParseHostWithPort plainEnv ''a.test:443'') \<noteq> []"
    by code_simp
  have o': "fst (openTunnelConn plainEnv (URLProxy plainEnv (ParseHostWithPort plainEnv ''a.test:443'') None)
        (hostWithPort (ParseHostWithPort plainEnv ''a.test:443''))
        (fst (tunnelTarget plainEnv (URLProxy plainEnv (ParseHostWithPort plainEnv ''a.test:443'') None)
           (hostWithPort (ParseHostWithPort plainEnv ''a.test:443'')))))
      = None"
    by code_simp
  from C7_tunnel_replies [OF h refl refl refl refl] o u hw
  have a: "fst (tunnelConnect env ''a.test:443'')
       = Some (ErrWrapper (Refused ''no route'') ''error occurred when dialing to host a.test:443'') \<and>
     clientWrites (snd (tunnelConnect env ''a.test:443''))
       = [''HTTP/1.1 501 Bad Gateway'' @ [CR, LF, CR, LF]] \<and>
     usageOutgoing (snd (tunnelConnect env ''a.test:443'')) = [28]"
    by simp
  from C7_tunnel_replies [OF h' refl refl refl refl] o'
  have b: "clientWrites (takeWhile (\<lambda>ev. \<not> isForward ev) (snd (tunnelConnect plainEnv ''a.test:443'')))
     = [''HTTP/1.1 200 OK'' @ [CR, LF, CR, LF]]"
    by simp
  from a b show ?thesis unfolding env_def by simp
qed

text \<open>
  C8 (amended). A plain HTTP request whose host info has an empty \<open>hostWithPort\<close>, when the
  response was attached to the writer without error and the hijacker has no response of
  its own: \<^verbatim>\<open>do\<close> returns \<^verbatim>\<open>ErrSessionUnavailable\<close>, and none of its effects opens a
  connection, takes a token or sends bytes to the client. A raw \<^verbatim>\<open>CONNECT\<close> tunnel whose
  parsed host info has an empty \<open>hostWithPort\<close>: \<^verbatim>\<open>tunnelConnect\<close> returns
  \<^verbatim>\<open>ErrSessionUnavailable\<close> and has no effect at all.
\<close>

theorem C8_empty_host_unavailable:
  "(hostWithPort (reqHostInfo req) = [] \<and> respWriteToResult env = None \<and>
      \<not> hijackResponse env req \<longrightarrow>
      fst (handleHTTPConns env req) = Some ErrSessionUnavailable \<and>
      \<not> list_ex dialsOrigin (snd (handleHTTPConns env req)) \<and>
      \<not> list_ex takesToken (snd (handleHTTPConns env req)) \<and>
      \<not> list_ex writesToClient (snd (handleHTTPConns env req))) \<and>
   (hostWithPort (ParseHostWithPort env h) = [] \<longrightarrow>
      tunnelConnect env h = (Some ErrSessionUnavailable, []))"
  by (simp add: handleHTTPConns_def do_def tunnelConnect_def Let_def)

text \<open>The theorem at a request and at a \<^verbatim>\<open>CONNECT\<close> target whose host did not parse.\<close>

theorem C8_witness:
  "fst (handleHTTPConns plainEnv
      \<lparr>reqHostInfo = \<lparr>hostWithPort = [], domain = []\<rparr>, reqMethod = ''GET'', reqPath = ''/''\<rparr>)
     = Some ErrSessionUnavailable \<and>
   snd (handleHTTPConns plainEnv
      \<lparr>reqHostInfo = \<lparr>hostWithPort = [], domain = []\<rparr>, reqMethod = ''GET'', reqPath = ''/''\<rparr>)
     = [AcquireWriter, AcquireResponse, HijackerGet, HijackerPut, ReleaseResponse, Flush,
        ReleaseWriter] \<and>
   tunnelConnect plainEnv [] = (Some ErrSessionUnavailable, [])"
proof -
  have a: "hostWithPort (reqHostInfo
      \<lparr>reqHostInfo = \<lparr>hostWithPort = [], domain = []\<rparr>, reqMethod = ''GET'', reqPath = ''/''\<rparr>) = [] \<and>
    respWriteToResult plainEnv = None \<and>
    \<not> hijackResponse plainEnv
      \<lparr>reqHostInfo = \<lparr>hostWithPort = [], domain = []\<rparr>, reqMethod = ''GET'', reqPath = ''/''\<rparr>"
    by code_simp
  have b: "hostWithPort (ParseHostWithPort plainEnv []) = []"
    by code_simp
  have t: "snd (handleHTTPConns plainEnv
      \<lparr>reqHostInfo = \<lparr>hostWithPort = [], domain = []\<rparr>, reqMethod = ''GET'', reqPath = ''/''\<rparr>)
     = [AcquireWriter, AcquireResponse, HijackerGet, HijackerPut, ReleaseResponse, Flush,
        ReleaseWriter]"
    by code_simp
  from C8_empty_host_unavailable [of
      "\<lparr>reqHostInfo = \<lparr>hostWithPort = [], domain = []\<rparr>, reqMethod = ''GET'', reqPath = ''/''\<rparr>"
      plainEnv "[]"] a b t
  show ?thesis by simp
qed

text \<open>
  C8 as stated fails for a plain HTTP request that the hijacker answers: \<^verbatim>\<open>do\<close> asks the
  hijacker for a response before it looks at the host, so with an empty \<open>hostWithPort\<close>
  the hijacked response is written to the client and the session returns what
  \<^verbatim>\<open>hijackClient.Do\<close> returns, here nil. It fails as well when \<^verbatim>\<open>resp.WriteTo\<close> returns an
  error: \<^verbatim>\<open>do\<close> returns that error, before the hijacker and the host are looked at.
\<close>

theorem C8_counterexample:
  "hostWithPort (reqHostInfo
      \<lparr>reqHostInfo = \<lparr>hostWithPort = [], domain = []\<rparr>, reqMethod = ''GET'', reqPath = ''/''\<rparr>) = [] \<and>
   handleHTTPConns (plainEnv\<lparr>hijackResponse := (\<lambda>r. True)\<rparr>)
      \<lparr>reqHostInfo = \<lparr>hostWithPort = [], domain = []\<rparr>, reqMethod = ''GET'', reqPath = ''/''\<rparr>
     = (None, [AcquireWriter, AcquireResponse, HijackerGet, HijackClientDo,
          ClientUsageAddIncoming 0, ClientUsageAddOutgoing 0, HijackerPut, ReleaseResponse,
          Flush, ReleaseWriter]) \<and>
   writesToClient HijackClientDo \<and>
   handleHTTPConns (plainEnv\<lparr>respWriteToResult := Some (Refused ''no writer'')\<rparr>)
      \<lparr>reqHostInfo = \<lparr>hostWithPort = [], domain = []\<rparr>, reqMethod = ''GET'', reqPath = ''/''\<rparr>
     = (Some (Refused ''no writer''),
        [AcquireWriter, AcquireResponse, ReleaseResponse, Flush, ReleaseWriter]) \<and>
   Refused ''no writer'' \<noteq> ErrSessionUnavailable"
  by code_simp

lemma handShake_events:
  "set (snd (snd (handShake env))) \<subseteq>
     {WriteClient httpTunnelMadeOk, UsageAddOutgoing httpTunnelMadeOkSize, TLSHandshake,
      CloseFakeServerConn}"
  by (auto simp: handShake_def sendHTTPSProxyStatusOK_def Let_def split: option.splits)

text \<open>
  C9. In \<^verbatim>\<open>decryptConnect\<close>, once the fake certificate is signed: when \<^verbatim>\<open>targetServerName\<close>
  is empty after \<^verbatim>\<open>handShake\<close>, the session returns the error
  \<^verbatim>\<open>client didn't provide a target server name\<close>, whatever the handshake returned, and
  among its effects there is no read of the decrypted request and none that opens a
  connection to the origin.
\<close>

theorem C9_no_server_name:
  assumes "signFakeCert env h = None" and "fst (snd (handShake env)) = []"
  shows "fst (decryptConnect env h) = Some errNoServerName \<and>
         ReadRequest \<notin> set (snd (decryptConnect env h)) \<and>
         \<not> list_ex dialsOrigin (snd (decryptConnect env h))"
proof -
  obtain e0 evH where hs: "handShake env = (e0, [], evH)"
    using assms(2) by (cases "handShake env") auto
  have d: "decryptConnect env h = (Some errNoServerName, evH)"
    using assms(1) hs by (simp add: decryptConnect_def)
  have "set evH \<subseteq> {WriteClient httpTunnelMadeOk, UsageAddOutgoing httpTunnelMadeOkSize,
      TLSHandshake, CloseFakeServerConn}"
    using handShake_events [of env] hs by simp
  then have "ReadRequest \<notin> set evH" and "\<forall>ev \<in> set evH. \<not> dialsOrigin ev" by auto
  then show ?thesis using d by (simp add: list_ex_iff)
qed

text \<open>The theorem at a client whose TLS hello names no server.\<close>

theorem C9_witness:
  "decryptConnect (plainEnv\<lparr>clientHelloServerName := None\<rparr>) ''a.test:443''
     = (Some errNoServerName, [WriteClient httpTunnelMadeOk, UsageAddOutgoing 19, TLSHandshake])"
proof -
  have s: "signFakeCert (plainEnv\<lparr>clientHelloServerName := None\<rparr>) ''a.test:443'' = None"
    by code_simp
  have n: "fst (snd (handShake (plainEnv\<lparr>clientHelloServerName := None\<rparr>))) = []"
    by code_simp
  have r: "decryptConnect (plainEnv\<lparr>clientHelloServerName := None\<rparr>) ''a.test:443''
     = (Some errNoServerName, [WriteClient httpTunnelMadeOk, UsageAddOutgoing 19, TLSHandshake])"
    by code_simp
  from C9_no_server_name [OF s n] r show ?thesis by simp
qed


end
